theory Spec2Isabelle
  imports Main "HOL-Library.Word"
begin

unbundle bit_operations_syntax

section \<open>The hash table of src/hashmap.c\<close>

text \<open>
  The model follows the 64 bit configuration of the source (\<open>hash_t\<close> is \<open>uint64_t\<close>).
  A key pointer is modelled by the bytes found at the pointer (the caller does not change
  them while the table holds the key); the null key pointer of a slot is \<open>None\<close>.  A value
  pointer is a 64 bit word, null being 0.  The quantities of type \<open>size_t\<close> and the slot
  indices of type \<open>int\<close> are natural numbers: the capacities a process can allocate stay far
  below the range where they would wrap.  A call that does not return (a probe that runs
  forever, or that would read through a null key pointer) has the result \<open>None\<close>.
  Allocation failure is not modelled, and \<open>free\<close> leaves the freed pointer in place, as in C.
\<close>

type_synonym byte = "8 word"
type_synonym hash_t = "64 word"
type_synonym key = "byte list"
type_synonym val_ptr = "64 word"

definition FNV_PRIME :: hash_t where
  "FNV_PRIME = 0x00000100000001b3"

definition FNV_BASIS :: hash_t where
  "FNV_BASIS = 0xcbf29ce484222325"

definition MIN_HASHMAP_SIZE :: nat where
  "MIN_HASHMAP_SIZE = 8"

definition NULL :: val_ptr where
  "NULL = 0"

record hashbucket =
  filled :: bool
  desired_idx :: nat
  hash :: hash_t
  key :: "key option"
  val :: val_ptr

record hashmap =
  buckets :: "hashbucket list"
  size_n :: nat
  min_size :: nat
  alloc_size :: nat
  key_size :: int
  copy_keys :: bool

record hmapiter =
  hmap_of :: hashmap
  idx :: int

text \<open>A slot as \<open>calloc\<close> leaves it: all fields zero.\<close>

definition zero_bucket :: hashbucket where
  "zero_bucket = \<lparr>filled = False, desired_idx = 0, hash = 0, key = None, val = NULL\<rparr>"

definition hashmap_create :: "nat \<Rightarrow> int \<Rightarrow> bool \<Rightarrow> hashmap" where
  "hashmap_create initial_size ksz ck =
     \<lparr>buckets = replicate (max initial_size MIN_HASHMAP_SIZE) zero_bucket,
      size_n = 0,
      min_size = max initial_size MIN_HASHMAP_SIZE,
      alloc_size = max initial_size MIN_HASHMAP_SIZE,
      key_size = ksz,
      copy_keys = ck\<rparr>"

definition hashmap_size :: "hashmap \<Rightarrow> nat" where
  "hashmap_size hmap = size_n hmap"

subsection \<open>Hashing, copying and comparing keys\<close>

text \<open>One round of the hash loop: \<open>hash ^= byte; hash *= FNV_PRIME\<close>.\<close>

definition hash_step :: "hash_t \<Rightarrow> byte \<Rightarrow> hash_t" where
  "hash_step h b = (h XOR ucast b) * FNV_PRIME"

text \<open>
  The loop \<open>while (*bytes)\<close> of the variable-length mode.  The empty list stands for the
  end of the modelled memory, which a key with a terminator never reaches.
\<close>

fun hash_str :: "hash_t \<Rightarrow> byte list \<Rightarrow> hash_t" where
  "hash_str h [] = h"
| "hash_str h (b # bytes) = (if b = 0 then h else hash_str (hash_step h b) bytes)"

text \<open>The loop \<open>for (i = 0; i < key_size; ++i)\<close> of the fixed-size mode.\<close>

fun hash_mem :: "nat \<Rightarrow> hash_t \<Rightarrow> byte list \<Rightarrow> hash_t" where
  "hash_mem 0 h bytes = h"
| "hash_mem (Suc n) h [] = h"
| "hash_mem (Suc n) h (b # bytes) = hash_mem n (hash_step h b) bytes"

definition hash_key :: "hashmap \<Rightarrow> key \<Rightarrow> hash_t" where
  "hash_key hmap k =
     (if key_size hmap < 0 then hash_str FNV_BASIS k
      else hash_mem (nat (key_size hmap)) FNV_BASIS k)"

text \<open>\<open>copy_key\<close>: the bytes up to and including the terminator, or the first \<open>key_size\<close> bytes.\<close>

fun str_bytes :: "byte list \<Rightarrow> byte list" where
  "str_bytes [] = []"
| "str_bytes (b # bytes) = (if b = 0 then [b] else b # str_bytes bytes)"

definition copy_key :: "hashmap \<Rightarrow> key \<Rightarrow> key" where
  "copy_key hmap k =
     (if key_size hmap < 0 then str_bytes k else take (nat (key_size hmap)) k)"

text \<open>The \<open>do ... while (kbytes[i++])\<close> loop of \<open>key_equals\<close>.\<close>

fun str_equals :: "byte list \<Rightarrow> byte list \<Rightarrow> bool" where
  "str_equals (a # as) (b # bs) =
     (if a \<noteq> b then False else if a = 0 then True else str_equals as bs)"
| "str_equals _ _ = False"

text \<open>The \<open>for (; i < key_size; ++i)\<close> loop of \<open>key_equals\<close>.\<close>

fun mem_equals :: "nat \<Rightarrow> byte list \<Rightarrow> byte list \<Rightarrow> bool" where
  "mem_equals 0 as bs = True"
| "mem_equals (Suc n) (a # as) (b # bs) = (if a \<noteq> b then False else mem_equals n as bs)"
| "mem_equals (Suc n) _ _ = False"

definition key_equals :: "hashmap \<Rightarrow> key \<Rightarrow> key \<Rightarrow> bool" where
  "key_equals hmap k other =
     (if key_size hmap < 0 then str_equals k other
      else mem_equals (nat (key_size hmap)) k other)"

subsection \<open>Probing\<close>

partial_function (option) get_bucket_loop ::
  "hashmap \<Rightarrow> key \<Rightarrow> hash_t \<Rightarrow> nat \<Rightarrow> nat option" where
  "get_bucket_loop hmap k h index =
     (if filled (buckets hmap ! index) then
        (if hash (buckets hmap ! index) = h then
           (case key (buckets hmap ! index) of
              None \<Rightarrow> None
            | Some other \<Rightarrow>
                if key_equals hmap k other then Some index
                else get_bucket_loop hmap k h ((index + 1) mod alloc_size hmap))
         else get_bucket_loop hmap k h ((index + 1) mod alloc_size hmap))
      else Some index)"

declare get_bucket_loop.simps [code]

definition get_bucket_index :: "hashmap \<Rightarrow> key \<Rightarrow> hash_t \<Rightarrow> nat option" where
  "get_bucket_index hmap k h = get_bucket_loop hmap k h (unat h mod alloc_size hmap)"

subsection \<open>Insertion and rehashing\<close>

definition hashmap_set_lower ::
  "hashmap \<Rightarrow> key \<Rightarrow> val_ptr \<Rightarrow> hash_t \<Rightarrow> (val_ptr \<times> hashmap) option" where
  "hashmap_set_lower hmap k v h =
     (case get_bucket_index hmap k h of
        None \<Rightarrow> None
      | Some index \<Rightarrow>
          let b = buckets hmap ! index;
              old_value = (if filled b then val b else NULL);
              b1 = (if filled b then b else b\<lparr>filled := True, hash := h\<rparr>);
              n1 = (if filled b then size_n hmap else size_n hmap + 1);
              b2 = b1\<lparr>key := Some k, val := v\<rparr>;
              b3 = b2\<lparr>desired_idx := unat (hash b2) mod alloc_size hmap\<rparr>
          in Some (old_value, hmap\<lparr>buckets := (buckets hmap)[index := b3], size_n := n1\<rparr>))"

text \<open>
  The loop of \<open>rehash\<close> over the old slot array.  A filled slot always holds a key pointer
  that a caller passed, so the case of a filled slot with a null key is left as not
  returning.
\<close>

fun rehash_loop :: "hashbucket list \<Rightarrow> hashmap \<Rightarrow> hashmap option" where
  "rehash_loop [] hmap = Some hmap"
| "rehash_loop (b # old_buckets) hmap =
     (if filled b then
        (case key b of
           None \<Rightarrow> None
         | Some k \<Rightarrow>
             (case hashmap_set_lower hmap k (val b) (hash b) of
                None \<Rightarrow> None
              | Some (old_value, hmap') \<Rightarrow> rehash_loop old_buckets hmap'))
      else rehash_loop old_buckets hmap)"

definition rehash :: "hashmap \<Rightarrow> nat \<Rightarrow> hashmap option" where
  "rehash hmap new_size =
     (if new_size < min_size hmap then Some hmap
      else rehash_loop (buckets hmap)
             (hmap\<lparr>size_n := 0, alloc_size := new_size,
                   buckets := replicate new_size zero_bucket\<rparr>))"

subsection \<open>Lookup\<close>

definition hashmap_get :: "hashmap \<Rightarrow> key \<Rightarrow> val_ptr option" where
  "hashmap_get hmap k =
     (case get_bucket_index hmap k (hash_key hmap k) of
        None \<Rightarrow> None
      | Some index \<Rightarrow>
          Some (if filled (buckets hmap ! index) then val (buckets hmap ! index) else NULL))"

text \<open>
  \<open>hashmap_may_get\<close> with a non-null \<open>out_value\<close>: the flag returned, and the value
  written through \<open>out_value\<close> if one is written.
\<close>

definition hashmap_may_get :: "hashmap \<Rightarrow> key \<Rightarrow> (bool \<times> val_ptr option) option" where
  "hashmap_may_get hmap k =
     (case get_bucket_index hmap k (hash_key hmap k) of
        None \<Rightarrow> None
      | Some index \<Rightarrow>
          if filled (buckets hmap ! index) then Some (True, Some (val (buckets hmap ! index)))
          else Some (False, None))"

definition hashmap_has :: "hashmap \<Rightarrow> key \<Rightarrow> bool option" where
  "hashmap_has hmap k =
     (case get_bucket_index hmap k (hash_key hmap k) of
        None \<Rightarrow> None
      | Some index \<Rightarrow> Some (filled (buckets hmap ! index)))"

definition hashmap_set :: "hashmap \<Rightarrow> key \<Rightarrow> val_ptr \<Rightarrow> (val_ptr \<times> hashmap) option" where
  "hashmap_set hmap k v =
     (case (if size_n hmap \<ge> alloc_size hmap div 2 then rehash hmap (alloc_size hmap * 2)
            else Some hmap) of
        None \<Rightarrow> None
      | Some hmap1 \<Rightarrow>
          let k1 = (if copy_keys hmap1 then copy_key hmap1 k else k)
          in hashmap_set_lower hmap1 k1 v (hash_key hmap1 k1))"

subsection \<open>Removal\<close>

text \<open>The decision \<open>filter\<close> in the compaction loop of \<open>hashmap_remove\<close>.\<close>

definition filter_up :: "nat \<Rightarrow> nat \<Rightarrow> nat \<Rightarrow> bool" where
  "filter_up desired index last_index =
     (if desired < index then last_index < index \<and> desired \<le> last_index
      else if desired > index then last_index < index \<or> desired \<le> last_index
      else False)"

partial_function (option) remove_loop ::
  "hashmap \<Rightarrow> nat \<Rightarrow> nat \<Rightarrow> (hashmap \<times> nat) option" where
  "remove_loop hmap index last_index =
     (if \<not> filled (buckets hmap ! ((index + 1) mod alloc_size hmap)) then Some (hmap, last_index)
      else if filter_up (desired_idx (buckets hmap ! ((index + 1) mod alloc_size hmap)))
                ((index + 1) mod alloc_size hmap) last_index
      then remove_loop
             (hmap\<lparr>buckets := (buckets hmap)
                [last_index := buckets hmap ! ((index + 1) mod alloc_size hmap)]\<rparr>)
             ((index + 1) mod alloc_size hmap) ((index + 1) mod alloc_size hmap)
      else remove_loop hmap ((index + 1) mod alloc_size hmap) last_index)"

declare remove_loop.simps [code]

text \<open>\<open>--hmap->size\<close> on a \<open>size_t\<close>.\<close>

definition size_dec :: "nat \<Rightarrow> nat" where
  "size_dec n = (if n = 0 then 2 ^ 64 - 1 else n - 1)"

definition hashmap_remove :: "hashmap \<Rightarrow> key \<Rightarrow> (val_ptr \<times> hashmap) option" where
  "hashmap_remove hmap k =
     (case get_bucket_index hmap k (hash_key hmap k) of
        None \<Rightarrow> None
      | Some index \<Rightarrow>
          if filled (buckets hmap ! index) then
            (case remove_loop hmap index index of
               None \<Rightarrow> None
             | Some (hmap1, last_index) \<Rightarrow>
                 let hmap2 = hmap1\<lparr>buckets := (buckets hmap1)
                               [last_index := (buckets hmap1 ! last_index)\<lparr>filled := False\<rparr>],
                             size_n := size_dec (size_n hmap1)\<rparr>
                 in (case (if size_n hmap2 < alloc_size hmap2 div 4
                           then rehash hmap2 (alloc_size hmap2 div 2) else Some hmap2) of
                       None \<Rightarrow> None
                     | Some hmap3 \<Rightarrow> Some (val (buckets hmap ! index), hmap3)))
          else Some (NULL, hmap))"

text \<open>
  The key-freeing pass of \<open>hashmap_destroy\<close>: the key pointers it hands to \<open>free\<close>, in
  slot order.
\<close>

definition hashmap_destroy_keys :: "hashmap \<Rightarrow> key option list" where
  "hashmap_destroy_keys hmap =
     (if copy_keys hmap then filter (\<lambda>p. p \<noteq> None) (map key (buckets hmap)) else [])"

subsection \<open>Iteration\<close>

definition hmapiter_create :: "hashmap \<Rightarrow> hmapiter" where
  "hmapiter_create hmap = \<lparr>hmap_of = hmap, idx = - 1\<rparr>"

definition hmapiter_reset :: "hmapiter \<Rightarrow> hmapiter" where
  "hmapiter_reset iter = iter\<lparr>idx := - 1\<rparr>"

text \<open>
  The \<open>do ... while\<close> loop of \<open>hmapiter_next\<close>, from the value of \<open>iter->idx\<close>; the
  comparison with \<open>alloc_size\<close> is unsigned, so a negative index counts as past the end.
  The result is the index the loop stops at, or \<open>None\<close> when the array is exhausted.
\<close>

function next_loop :: "hashmap \<Rightarrow> int \<Rightarrow> nat option" where
  "next_loop hmap i =
     (if i + 1 < 0 \<or> int (alloc_size hmap) \<le> i + 1 then None
      else if filled (buckets hmap ! nat (i + 1)) then Some (nat (i + 1))
      else next_loop hmap (i + 1))"
  by pat_completeness auto
termination
  by (relation "measure (\<lambda>(hmap, i). nat (int (alloc_size hmap) - i))") auto

declare next_loop.simps [simp del]

text \<open>
  \<open>hmapiter_next\<close> with non-null \<open>out_key\<close> and \<open>out_value\<close>: the flag returned, the
  key and value pointers written, and the iterator afterwards.
\<close>

definition hmapiter_next :: "hmapiter \<Rightarrow> bool \<times> key option \<times> val_ptr \<times> hmapiter" where
  "hmapiter_next iter =
     (case next_loop (hmap_of iter) (idx iter) of
        None \<Rightarrow> (False, None, NULL, iter\<lparr>idx := - 1\<rparr>)
      | Some i \<Rightarrow>
          (True, key (buckets (hmap_of iter) ! i), val (buckets (hmap_of iter) ! i),
           iter\<lparr>idx := int i\<rparr>))"


section \<open>Reference notions\<close>


text \<open>
  A key the table can read: in variable-length mode the bytes at the pointer contain a
  terminator, in fixed-size mode there are at least \<open>key_size\<close> bytes.
\<close>

definition key_ok :: "hashmap \<Rightarrow> key \<Rightarrow> bool" where
  "key_ok hmap k = (if key_size hmap < 0 then 0 \<in> set k else nat (key_size hmap) \<le> length k)"

text \<open>The bytes of a key that take part in hashing.\<close>

definition key_span :: "hashmap \<Rightarrow> key \<Rightarrow> byte list" where
  "key_span hmap k =
     (if key_size hmap < 0 then takeWhile (\<lambda>b. b \<noteq> 0) k else take (nat (key_size hmap)) k)"

abbreviation slot :: "hashmap \<Rightarrow> nat \<Rightarrow> hashbucket" where
  "slot hmap i \<equiv> buckets hmap ! i"

text \<open>The number of probe steps from slot \<open>a\<close> forward, with wraparound, to slot \<open>b\<close>.\<close>

definition dist :: "nat \<Rightarrow> nat \<Rightarrow> nat \<Rightarrow> nat" where
  "dist n a b = (b + n - a) mod n"

text \<open>A slot is filled and its key compares equal to the key \<open>k\<close> of a query.\<close>

definition slot_holds :: "hashmap \<Rightarrow> key \<Rightarrow> hashbucket \<Rightarrow> bool" where
  "slot_holds hmap k b =
     (filled b \<and> (case key b of None \<Rightarrow> False | Some other \<Rightarrow> key_equals hmap k other))"

text \<open>
  The probe-chain property of a slot: every slot from the occupant's desired index up
  to, but excluding, the slot itself is filled, so that a linear probe from the desired
  index reaches the slot before it meets an empty slot.
\<close>

definition probe_reaches :: "hashmap \<Rightarrow> nat \<Rightarrow> bool" where
  "probe_reaches hmap i =
     (\<forall>j\<in>{0..<dist (alloc_size hmap) (desired_idx (slot hmap i)) i}.
        filled (slot hmap ((desired_idx (slot hmap i) + j) mod alloc_size hmap)))"

definition slot_ok :: "hashmap \<Rightarrow> nat \<Rightarrow> bool" where
  "slot_ok hmap i =
     (filled (slot hmap i) \<longrightarrow>
        (case key (slot hmap i) of
           None \<Rightarrow> False
         | Some k \<Rightarrow> key_ok hmap k \<and> hash (slot hmap i) = hash_key hmap k) \<and>
        desired_idx (slot hmap i) = unat (hash (slot hmap i)) mod alloc_size hmap \<and>
        probe_reaches hmap i)"

definition keys_distinct :: "hashmap \<Rightarrow> bool" where
  "keys_distinct hmap =
     (\<forall>i\<in>{0..<alloc_size hmap}. \<forall>j\<in>{0..<alloc_size hmap}.
        i \<noteq> j \<and> filled (slot hmap i) \<longrightarrow>
          (case key (slot hmap i) of
             None \<Rightarrow> True
           | Some k \<Rightarrow> \<not> slot_holds hmap k (slot hmap j)))"

text \<open>
  The structural invariant of the slot array: it has \<open>alloc_size\<close> slots, the logical
  count is the number of filled slots, every filled slot holds a readable key with its
  hash and desired index and has the probe-chain property, and no two filled slots hold
  equal keys.
\<close>

definition chain_inv :: "hashmap \<Rightarrow> bool" where
  "chain_inv hmap =
     (length (buckets hmap) = alloc_size hmap \<and>
      size_n hmap = length (filter filled (buckets hmap)) \<and>
      (\<forall>i\<in>{0..<alloc_size hmap}. slot_ok hmap i) \<and>
      keys_distinct hmap)"

text \<open>
  The invariant of a table between two calls: the structural invariant, the floor on the
  capacity, and the load bound that \<open>hashmap_set\<close> and \<open>hashmap_remove\<close> maintain.
\<close>

definition hmap_inv :: "hashmap \<Rightarrow> bool" where
  "hmap_inv hmap =
     (chain_inv hmap \<and> MIN_HASHMAP_SIZE \<le> min_size hmap \<and> min_size hmap \<le> alloc_size hmap \<and>
      size_n hmap \<le> alloc_size hmap div 2)"

text \<open>The table maps the key \<open>k\<close> to the value \<open>v\<close>; the table has the key \<open>k\<close>.\<close>

definition has_entry :: "hashmap \<Rightarrow> key \<Rightarrow> val_ptr \<Rightarrow> bool" where
  "has_entry hmap k v =
     (\<exists>i\<in>{0..<alloc_size hmap}. slot_holds hmap k (slot hmap i) \<and> val (slot hmap i) = v)"

definition has_key :: "hashmap \<Rightarrow> key \<Rightarrow> bool" where
  "has_key hmap k = (\<exists>i\<in>{0..<alloc_size hmap}. slot_holds hmap k (slot hmap i))"

text \<open>
  The table after a call of \<open>hashmap_set\<close> or of \<open>hashmap_remove\<close>, for building
  example tables.
\<close>

definition set_in :: "hashmap \<Rightarrow> key \<Rightarrow> val_ptr \<Rightarrow> hashmap" where
  "set_in hmap k v = (case hashmap_set hmap k v of Some (old, hmap') \<Rightarrow> hmap' | None \<Rightarrow> hmap)"

definition remove_in :: "hashmap \<Rightarrow> key \<Rightarrow> hashmap" where
  "remove_in hmap k = (case hashmap_remove hmap k of Some (old, hmap') \<Rightarrow> hmap' | None \<Rightarrow> hmap)"

text \<open>
  A table of capacity 8 with one-byte keys in which the keys 1 and 9 have the same probe
  start, slot 4, and the key 2 starts at slot 5: the slots 4, 5 and 6 hold 1, 9 and 2.
\<close>

definition collide_table :: hashmap where
  "collide_table = set_in (set_in (set_in (hashmap_create 8 1 False) [1] 11) [9] 19) [2] 12"

text \<open>
  A table of capacity 8 that holds the four keys 1, 2, 3 and 4: its logical count is
  half of its capacity, so the next \<open>hashmap_set\<close> grows it.
\<close>

definition half_full_table :: hashmap where
  "half_full_table =
     set_in (set_in (set_in (set_in (hashmap_create 8 1 False) [1] 11) [2] 12) [3] 13) [4] 14"


text \<open>
  The state of the compaction loop of \<open>hashmap_remove\<close>, started on the table \<open>h0\<close> at
  the slot \<open>r\<close> of the removed key, with the vacancy at \<open>hole\<close>.  The fill flags are those
  of \<open>h0\<close> (the vacancy is still flagged as filled), every slot but the vacancy is well
  formed, no two occupants outside the vacancy have equal keys, and the occupants outside
  the vacancy are those of \<open>h0\<close> outside \<open>r\<close>.
\<close>

definition compact_frame :: "hashmap \<Rightarrow> nat \<Rightarrow> hashmap \<Rightarrow> nat \<Rightarrow> bool" where
  "compact_frame h0 r hmap hole =
     (alloc_size hmap = alloc_size h0 \<and> length (buckets hmap) = alloc_size h0 \<and>
      key_size hmap = key_size h0 \<and> size_n hmap = size_n h0 \<and>
      min_size hmap = min_size h0 \<and> copy_keys hmap = copy_keys h0 \<and>
      hole < alloc_size h0 \<and> r < alloc_size h0 \<and> filled (slot hmap hole) \<and>
      (\<forall>i<alloc_size h0. filled (slot hmap i) = filled (slot h0 i)) \<and>
      (\<forall>i<alloc_size h0. i \<noteq> hole \<longrightarrow> slot_ok hmap i) \<and>
      (\<forall>i<alloc_size h0. \<forall>j<alloc_size h0.
           i \<noteq> j \<and> i \<noteq> hole \<and> j \<noteq> hole \<and> filled (slot hmap i) \<longrightarrow>
           (case key (slot hmap i) of
              None \<Rightarrow> True
            | Some k \<Rightarrow> \<not> slot_holds hmap k (slot hmap j))) \<and>
      {slot hmap i | i. i < alloc_size h0 \<and> i \<noteq> hole \<and> filled (slot hmap i)} =
      {slot h0 i | i. i < alloc_size h0 \<and> i \<noteq> r \<and> filled (slot h0 i)})"

text \<open>
  The walk of the loop has reached \<open>index\<close>: the slots from the vacancy to \<open>index\<close> are
  filled, and the occupants after the vacancy up to \<open>index\<close> do not probe through the
  vacancy.
\<close>

definition compact_walk :: "hashmap \<Rightarrow> nat \<Rightarrow> nat \<Rightarrow> bool" where
  "compact_walk hmap index hole =
     (index < alloc_size hmap \<and>
      (\<forall>j\<le>dist (alloc_size hmap) hole index.
         filled (slot hmap ((hole + j) mod alloc_size hmap))) \<and>
      (\<forall>i<alloc_size hmap. i \<noteq> hole \<and> filled (slot hmap i) \<and>
           0 < dist (alloc_size hmap) hole i \<and>
           dist (alloc_size hmap) hole i \<le> dist (alloc_size hmap) hole index \<longrightarrow>
           \<not> dist (alloc_size hmap) (desired_idx (slot hmap i)) hole
               < dist (alloc_size hmap) (desired_idx (slot hmap i)) i))"

text \<open>
  A caller's loop over an iterator: \<open>n\<close> calls of \<open>hmapiter_next\<close> in a row, with the
  flag, key and value of each call, and the iterator after the last call.
\<close>

fun advance_n :: "nat \<Rightarrow> hmapiter \<Rightarrow> (bool \<times> key option \<times> val_ptr) list \<times> hmapiter" where
  "advance_n 0 iter = ([], iter)"
| "advance_n (Suc n) iter =
     (case hmapiter_next iter of
        (ok, k, v, iter') \<Rightarrow>
          (case advance_n n iter' of (results, iter'') \<Rightarrow> ((ok, k, v) # results, iter'')))"

text \<open>A number is a power of two.\<close>

fun power_of_two :: "nat \<Rightarrow> bool" where
  "power_of_two n = (if n \<le> 1 then n = 1 else even n \<and> power_of_two (n div 2))"

declare power_of_two.simps [simp del]

text \<open>
  The table states that a caller can reach: the table that \<open>hashmap_create\<close> returns for
  the given arguments, and every table left by a returning call of \<open>hashmap_set\<close> or
  \<open>hashmap_remove\<close> with a readable key on a reachable table.
\<close>

inductive reachable :: "nat \<Rightarrow> int \<Rightarrow> bool \<Rightarrow> hashmap \<Rightarrow> bool"
  for initial_size :: nat and ksz :: int and ck :: bool where
  created: "reachable initial_size ksz ck (hashmap_create initial_size ksz ck)"
| after_set:
    "reachable initial_size ksz ck hmap \<Longrightarrow> key_ok hmap k \<Longrightarrow>
       hashmap_set hmap k v = Some (old, hmap') \<Longrightarrow> reachable initial_size ksz ck hmap'"
| after_remove:
    "reachable initial_size ksz ck hmap \<Longrightarrow> key_ok hmap k \<Longrightarrow>
       hashmap_remove hmap k = Some (old, hmap') \<Longrightarrow> reachable initial_size ksz ck hmap'"

section \<open>Keys\<close>

lemma hash_str_foldl: "hash_str h k = foldl hash_step h (takeWhile (\<lambda>b. b \<noteq> 0) k)"
  by (induction k arbitrary: h) auto

lemma hash_mem_foldl: "hash_mem n h k = foldl hash_step h (take n k)"
  by (induction n h k rule: hash_mem.induct) auto

lemma hash_key_span: "hash_key hmap k = foldl hash_step FNV_BASIS (key_span hmap k)"
  by (simp add: hash_key_def key_span_def hash_str_foldl hash_mem_foldl)

lemma str_equals_iff:
  "0 \<in> set a \<Longrightarrow> 0 \<in> set b \<Longrightarrow>
     str_equals a b \<longleftrightarrow> takeWhile (\<lambda>x. x \<noteq> 0) a = takeWhile (\<lambda>x. x \<noteq> 0) b"
  by (induction a b rule: str_equals.induct) auto

lemma mem_equals_iff:
  "n \<le> length a \<Longrightarrow> n \<le> length b \<Longrightarrow> mem_equals n a b \<longleftrightarrow> take n a = take n b"
  by (induction n a b rule: mem_equals.induct) auto

lemma key_equals_span:
  "key_ok hmap a \<Longrightarrow> key_ok hmap b \<Longrightarrow>
     key_equals hmap a b \<longleftrightarrow> key_span hmap a = key_span hmap b"
  by (simp add: key_equals_def key_ok_def key_span_def str_equals_iff mem_equals_iff)


lemma str_bytes_span: "takeWhile (\<lambda>b. b \<noteq> 0) (str_bytes k) = takeWhile (\<lambda>b. b \<noteq> 0) k"
  by (induction k) auto

lemma str_bytes_zero: "0 \<in> set k \<Longrightarrow> 0 \<in> set (str_bytes k)"
  by (induction k) auto

lemma copy_key_ok: "key_ok hmap k \<Longrightarrow> key_ok hmap (copy_key hmap k)"
  by (simp add: key_ok_def copy_key_def str_bytes_zero)

lemma copy_key_span: "key_span hmap (copy_key hmap k) = key_span hmap k"
  by (simp add: key_span_def copy_key_def str_bytes_span)

lemma key_equals_hash:
  "key_ok hmap a \<Longrightarrow> key_ok hmap b \<Longrightarrow> key_equals hmap a b \<Longrightarrow>
     hash_key hmap a = hash_key hmap b"
  by (simp add: key_equals_span hash_key_span)

section \<open>Cyclic distance\<close>

lemma dist_if: "a < n \<Longrightarrow> b < n \<Longrightarrow> dist n a b = (if a \<le> b then b - a else b + n - a)"
  by (auto simp: dist_def mod_if)

lemma dist_less: "a < n \<Longrightarrow> b < n \<Longrightarrow> dist n a b < n"
  by (auto simp: dist_if)

lemma dist_reach: "a < n \<Longrightarrow> b < n \<Longrightarrow> (a + dist n a b) mod n = b"
  by (auto simp: dist_if mod_if)

lemma dist_add: "a < n \<Longrightarrow> j < n \<Longrightarrow> dist n a ((a + j) mod n) = j"
  by (auto simp: dist_def mod_if)

lemma dist_zero: "a < n \<Longrightarrow> b < n \<Longrightarrow> dist n a b = 0 \<longleftrightarrow> a = b"
  by (auto simp: dist_if)

lemma dist_split:
  "d < n \<Longrightarrow> l < n \<Longrightarrow> i < n \<Longrightarrow> dist n d l < dist n d i \<Longrightarrow>
     dist n d i = dist n d l + dist n l i"
  by (auto simp: dist_if split: if_splits)

lemma dist_succ:
  "l < n \<Longrightarrow> i < n \<Longrightarrow> Suc i mod n \<noteq> l \<Longrightarrow> dist n l (Suc i mod n) = Suc (dist n l i)"
  by (auto simp: dist_if mod_if split: if_splits)

lemma dist_inj:
  assumes "a < n" and "b < n" and "c < n" and "dist n a b = dist n a c"
  shows "b = c"
proof -
  have "b = (a + dist n a b) mod n" using dist_reach[OF assms(1,2)] by simp
  also have "\<dots> = (a + dist n a c) mod n" using assms(4) by simp
  also have "\<dots> = c" using assms(1,3) by (rule dist_reach)
  finally show ?thesis .
qed

lemma dist_self: "a < n \<Longrightarrow> dist n a a = 0"
  by (simp add: dist_if)

lemma filter_up_dist:
  "d < n \<Longrightarrow> i < n \<Longrightarrow> l < n \<Longrightarrow> l \<noteq> i \<Longrightarrow>
     filter_up d i l \<longleftrightarrow> dist n d l < dist n d i"
  by (auto simp: filter_up_def dist_if)

lemma mod_succ_add: "(Suc i mod n + j) mod n = Suc (i + j) mod n"
  by (simp add: mod_add_left_eq)

section \<open>Probing under the invariant\<close>

lemma get_bucket_loop_run:
  assumes "i < alloc_size h"
    and "\<And>j. j < m \<Longrightarrow>
           filled (buckets h ! ((i + j) mod alloc_size h)) \<and>
           (hash (buckets h ! ((i + j) mod alloc_size h)) = hs \<longrightarrow>
              (\<exists>other. key (buckets h ! ((i + j) mod alloc_size h)) = Some other \<and>
                       \<not> key_equals h k other))"
    and "\<not> filled (buckets h ! ((i + m) mod alloc_size h)) \<or>
         (hash (buckets h ! ((i + m) mod alloc_size h)) = hs \<and>
          (\<exists>other. key (buckets h ! ((i + m) mod alloc_size h)) = Some other \<and>
                   key_equals h k other))"
  shows "get_bucket_loop h k hs i = Some ((i + m) mod alloc_size h)"
  using assms
proof (induction m arbitrary: i)
  case 0
  then show ?case
    by (subst get_bucket_loop.simps) auto
next
  case (Suc m)
  have n0: "0 < alloc_size h" using Suc.prems(1) by simp
  have here: "filled (buckets h ! i) \<and>
           (hash (buckets h ! i) = hs \<longrightarrow>
              (\<exists>other. key (buckets h ! i) = Some other \<and> \<not> key_equals h k other))"
    using Suc.prems(2)[of 0] Suc.prems(1) by simp
  have "get_bucket_loop h k hs ((i + 1) mod alloc_size h)
          = Some (((i + 1) mod alloc_size h + m) mod alloc_size h)"
  proof (rule Suc.IH)
    show "(i + 1) mod alloc_size h < alloc_size h" using n0 by simp
  next
    fix j assume "j < m"
    then show "filled (buckets h ! (((i + 1) mod alloc_size h + j) mod alloc_size h)) \<and>
           (hash (buckets h ! (((i + 1) mod alloc_size h + j) mod alloc_size h)) = hs \<longrightarrow>
              (\<exists>other. key (buckets h ! (((i + 1) mod alloc_size h + j) mod alloc_size h)) = Some other \<and>
                       \<not> key_equals h k other))"
      using Suc.prems(2)[of "Suc j"] by (simp add: mod_succ_add)
  next
    show "\<not> filled (buckets h ! (((i + 1) mod alloc_size h + m) mod alloc_size h)) \<or>
         (hash (buckets h ! (((i + 1) mod alloc_size h + m) mod alloc_size h)) = hs \<and>
          (\<exists>other. key (buckets h ! (((i + 1) mod alloc_size h + m) mod alloc_size h)) = Some other \<and>
                   key_equals h k other))"
      using Suc.prems(3) by (simp add: mod_succ_add)
  qed
  then have "get_bucket_loop h k hs ((i + 1) mod alloc_size h) = Some ((i + Suc m) mod alloc_size h)"
    by (simp add: mod_succ_add)
  then show ?case
    using here by (subst get_bucket_loop.simps) auto
qed

lemma key_equals_sym:
  "key_ok h a \<Longrightarrow> key_ok h b \<Longrightarrow> key_equals h a b \<Longrightarrow> key_equals h b a"
  by (simp add: key_equals_span)

lemma key_equals_trans:
  "key_ok h a \<Longrightarrow> key_ok h b \<Longrightarrow> key_ok h c \<Longrightarrow> key_equals h a b \<Longrightarrow> key_equals h b c \<Longrightarrow>
     key_equals h a c"
  by (simp add: key_equals_span)

lemma key_equals_refl: "key_ok h a \<Longrightarrow> key_equals h a a"
  by (simp add: key_equals_span)

lemma slot_okD:
  assumes "chain_inv h" and "i < alloc_size h" and "filled (slot h i)"
  obtains k' where "key (slot h i) = Some k'" and "key_ok h k'"
    and "hash (slot h i) = hash_key h k'"
    and "desired_idx (slot h i) = unat (hash_key h k') mod alloc_size h"
    and "probe_reaches h i"
proof -
  from assms have "slot_ok h i" by (simp add: chain_inv_def)
  with assms(3) show ?thesis
    using that by (auto simp: slot_ok_def split: option.splits)
qed

lemma keys_distinctD:
  assumes "chain_inv h" and "i < alloc_size h" and "j < alloc_size h" and "i \<noteq> j"
    and "filled (slot h i)" and "key (slot h i) = Some ki"
  shows "\<not> slot_holds h ki (slot h j)"
  using assms unfolding chain_inv_def keys_distinct_def by force

lemma holds_unique:
  assumes inv: "chain_inv h" and k: "key_ok h k"
    and i: "i < alloc_size h" "slot_holds h k (slot h i)"
    and j: "j < alloc_size h" "slot_holds h k (slot h j)"
  shows "i = j"
proof (rule ccontr)
  assume ne: "i \<noteq> j"
  from i have fi: "filled (slot h i)" by (simp add: slot_holds_def)
  from j have fj: "filled (slot h j)" by (simp add: slot_holds_def)
  from slot_okD[OF inv i(1) fi] obtain ki where ki: "key (slot h i) = Some ki" "key_ok h ki"
    by blast
  from slot_okD[OF inv j(1) fj] obtain kj where kj: "key (slot h j) = Some kj" "key_ok h kj"
    by blast
  from i ki have e1: "key_equals h k ki" by (simp add: slot_holds_def)
  from j kj have e2: "key_equals h k kj" by (simp add: slot_holds_def)
  have "key_equals h ki kj"
    using e1 e2 k ki(2) kj(2) by (simp add: key_equals_span)
  then have "slot_holds h ki (slot h j)" using fj kj by (simp add: slot_holds_def)
  with keys_distinctD[OF inv i(1) j(1) ne fi ki(1)] show False by contradiction
qed

lemma lookup_present:
  assumes inv: "chain_inv h" and k: "key_ok h k"
    and i: "i < alloc_size h" and holds: "slot_holds h k (slot h i)"
  shows "get_bucket_index h k (hash_key h k) = Some i"
proof -
  let ?n = "alloc_size h"
  from holds have fi: "filled (slot h i)" by (simp add: slot_holds_def)
  from slot_okD[OF inv i fi] obtain k' where k': "key (slot h i) = Some k'" "key_ok h k'"
    "hash (slot h i) = hash_key h k'"
    "desired_idx (slot h i) = unat (hash_key h k') mod ?n" "probe_reaches h i"
    by blast
  from holds k' have eq: "key_equals h k k'" by (simp add: slot_holds_def)
  then have hk: "hash_key h k = hash_key h k'" using k k'(2) by (rule key_equals_hash[rotated 2])
  define d where "d = unat (hash_key h k) mod ?n"
  have d: "d < ?n" using i by (simp add: d_def)
  have des: "desired_idx (slot h i) = d" using k'(4) hk by (simp add: d_def)
  define m where "m = dist ?n d i"
  have "get_bucket_loop h k (hash_key h k) d = Some ((d + m) mod ?n)"
  proof (rule get_bucket_loop_run)
    show "d < ?n" by (rule d)
  next
    fix j assume jm: "j < m"
    let ?p = "(d + j) mod ?n"
    have p: "?p < ?n" using i by simp
    have jn: "j < ?n" using jm dist_less[OF d i] by (simp add: m_def)
    have fp: "filled (slot h ?p)"
      using k'(5) jm des by (simp add: probe_reaches_def m_def)
    have "dist ?n d ?p = j" using d jn by (rule dist_add)
    then have ne: "?p \<noteq> i" using jm by (auto simp: m_def)
    from slot_okD[OF inv p fp] obtain kp where kp: "key (slot h ?p) = Some kp" "key_ok h kp"
      by blast
    have "\<not> slot_holds h k (slot h ?p)"
      using holds_unique[OF inv k i holds p] ne by blast
    then have "\<not> key_equals h k kp" using fp kp by (simp add: slot_holds_def)
    then show "filled (slot h ?p) \<and>
           (hash (slot h ?p) = hash_key h k \<longrightarrow>
              (\<exists>other. key (slot h ?p) = Some other \<and> \<not> key_equals h k other))"
      using fp kp by simp
  next
    have "(d + m) mod ?n = i" unfolding m_def using d i by (rule dist_reach)
    then show "\<not> filled (slot h ((d + m) mod ?n)) \<or>
         (hash (slot h ((d + m) mod ?n)) = hash_key h k \<and>
          (\<exists>other. key (slot h ((d + m) mod ?n)) = Some other \<and> key_equals h k other))"
      using k' hk eq by simp
  qed
  moreover have "(d + m) mod ?n = i" unfolding m_def using d i by (rule dist_reach)
  ultimately show ?thesis by (simp add: get_bucket_index_def d_def)
qed

lemma lookup_absent:
  assumes keys: "\<And>i. i < alloc_size h \<Longrightarrow> filled (slot h i) \<Longrightarrow> key (slot h i) \<noteq> None"
    and absent: "\<And>i. i < alloc_size h \<Longrightarrow> \<not> slot_holds h k (slot h i)"
    and room: "e0 < alloc_size h" "\<not> filled (slot h e0)"
  shows "\<exists>e<alloc_size h. get_bucket_index h k hs = Some e \<and> \<not> filled (slot h e) \<and>
           (\<forall>j<dist (alloc_size h) (unat hs mod alloc_size h) e.
               filled (slot h ((unat hs mod alloc_size h + j) mod alloc_size h)))"
proof -
  let ?n = "alloc_size h"
  define d where "d = unat hs mod ?n"
  have d: "d < ?n" using room(1) by (simp add: d_def)
  define Q where "Q j \<longleftrightarrow> \<not> filled (slot h ((d + j) mod ?n))" for j
  have "Q (dist ?n d e0)" using room dist_reach[OF d room(1)] by (simp add: Q_def)
  define m where "m = (LEAST j. Q j)"
  have Qm: "Q m" unfolding m_def using \<open>Q (dist ?n d e0)\<close> by (rule LeastI)
  have less: "\<And>j. j < m \<Longrightarrow> \<not> Q j" unfolding m_def by (rule not_less_Least)
  have "m \<le> dist ?n d e0" unfolding m_def using \<open>Q (dist ?n d e0)\<close> by (rule Least_le)
  then have mn: "m < ?n" using dist_less[OF d room(1)] by simp
  let ?e = "(d + m) mod ?n"
  have e: "?e < ?n" using d by simp
  have de: "dist ?n d ?e = m" using d mn by (rule dist_add)
  have "get_bucket_loop h k hs d = Some ?e"
  proof (rule get_bucket_loop_run)
    show "d < ?n" by (rule d)
  next
    fix j assume jm: "j < m"
    let ?p = "(d + j) mod ?n"
    have p: "?p < ?n" using d by simp
    have fp: "filled (slot h ?p)" using less[OF jm] by (simp add: Q_def)
    from keys[OF p fp] obtain kp where kp: "key (slot h ?p) = Some kp" by blast
    have "\<not> key_equals h k kp" using absent[OF p] fp kp by (simp add: slot_holds_def)
    then show "filled (slot h ?p) \<and>
           (hash (slot h ?p) = hs \<longrightarrow>
              (\<exists>other. key (slot h ?p) = Some other \<and> \<not> key_equals h k other))"
      using fp kp by simp
  next
    show "\<not> filled (slot h ?e) \<or>
         (hash (slot h ?e) = hs \<and>
          (\<exists>other. key (slot h ?e) = Some other \<and> key_equals h k other))"
      using Qm by (simp add: Q_def)
  qed
  moreover have "\<forall>j<dist ?n d ?e. filled (slot h ((d + j) mod ?n))"
    using less de by (simp add: Q_def)
  ultimately show ?thesis
    using e Qm unfolding get_bucket_index_def d_def[symmetric] Q_def by blast
qed

section \<open>Writing a slot\<close>

lemma key_size_cong:
  assumes "key_size h' = key_size h"
  shows "key_equals h' = key_equals h" and "hash_key h' = hash_key h" and "key_ok h' = key_ok h"
    and "key_span h' = key_span h" and "copy_key h' = copy_key h"
  using assms
  by (simp_all add: fun_eq_iff key_equals_def hash_key_def key_ok_def key_span_def copy_key_def)

lemma slot_holds_cong:
  assumes "key_size h' = key_size h"
  shows "slot_holds h' = slot_holds h"
  unfolding fun_eq_iff slot_holds_def key_size_cong(1)[OF assms] by simp

lemma key_fns_update [simp]:
  "key_equals (h\<lparr>buckets := bs\<rparr>) = key_equals h"
  "key_equals (h\<lparr>size_n := s\<rparr>) = key_equals h"
  "hash_key (h\<lparr>buckets := bs\<rparr>) = hash_key h"
  "hash_key (h\<lparr>size_n := s\<rparr>) = hash_key h"
  "key_ok (h\<lparr>buckets := bs\<rparr>) = key_ok h"
  "key_ok (h\<lparr>size_n := s\<rparr>) = key_ok h"
  "slot_holds (h\<lparr>buckets := bs\<rparr>) = slot_holds h"
  "slot_holds (h\<lparr>size_n := s\<rparr>) = slot_holds h"
  by (rule key_size_cong slot_holds_cong, simp)+

lemma filter_update_count:
  "i < length xs \<Longrightarrow>
     length (filter P (xs[i := x])) + (if P (xs ! i) then 1 else 0) =
     length (filter P xs) + (if P x then 1 else 0)"
proof (induction xs arbitrary: i)
  case Nil
  then show ?case by simp
next
  case (Cons a xs)
  show ?case
  proof (cases i)
    case 0
    then show ?thesis by simp
  next
    case (Suc i')
    with Cons.prems have "i' < length xs" by simp
    from Cons.IH[OF this] show ?thesis using Suc by simp
  qed
qed

lemma filter_count_room:
  "length (filter P xs) < length xs \<Longrightarrow> \<exists>i<length xs. \<not> P (xs ! i)"
proof (rule ccontr)
  assume l: "length (filter P xs) < length xs" and "\<not> (\<exists>i<length xs. \<not> P (xs ! i))"
  then have "\<forall>x\<in>set xs. P x" by (auto simp: in_set_conv_nth)
  then have "filter P xs = xs" by simp
  with l show False by simp
qed

lemma chain_inv_update:
  assumes inv: "chain_inv h" and p: "p < alloc_size h"
    and b': "filled b'" "key b' = Some k" "key_ok h k" "hash b' = hash_key h k"
      "desired_idx b' = unat (hash b') mod alloc_size h"
    and reach: "\<And>j. j < dist (alloc_size h) (desired_idx b') p \<Longrightarrow>
                  filled (slot h ((desired_idx b' + j) mod alloc_size h))"
    and others: "\<And>j. j < alloc_size h \<Longrightarrow> j \<noteq> p \<Longrightarrow> \<not> slot_holds h k (slot h j)"
    and s': "s' = (if filled (slot h p) then size_n h else size_n h + 1)"
  shows "chain_inv (h\<lparr>buckets := (buckets h)[p := b'], size_n := s'\<rparr>)"
proof -
  let ?n = "alloc_size h"
  let ?h' = "h\<lparr>buckets := (buckets h)[p := b'], size_n := s'\<rparr>"
  from inv have len: "length (buckets h) = ?n" by (simp add: chain_inv_def)
  have slot': "\<And>i. i < ?n \<Longrightarrow> slot ?h' i = (if i = p then b' else slot h i)"
    using len by (simp add: nth_list_update)
  have mono: "\<And>q. q < ?n \<Longrightarrow> filled (slot h q) \<Longrightarrow> filled (slot ?h' q)"
    using slot' b'(1) by simp
  have n0: "0 < ?n" using p by simp
  have c1: "length (buckets ?h') = alloc_size ?h'" using len by simp
  have c2: "size_n ?h' = length (filter filled (buckets ?h'))"
  proof -
    from inv have "size_n h = length (filter filled (buckets h))" by (simp add: chain_inv_def)
    moreover have "p < length (buckets h)" using p len by simp
    from filter_update_count[OF this, of filled b']
    have "length (filter filled ((buckets h)[p := b'])) + (if filled (slot h p) then 1 else 0) =
          length (filter filled (buckets h)) + 1" using b'(1) by simp
    ultimately show ?thesis using s' by (simp split: if_splits)
  qed
  have c3: "slot_ok ?h' i" if i: "i < ?n" for i
  proof (cases "i = p")
    case True
    have "probe_reaches ?h' p"
      unfolding probe_reaches_def
    proof (intro ballI)
      fix j assume "j \<in> {0..<dist (alloc_size ?h') (desired_idx (slot ?h' p)) p}"
      then have j: "j < dist ?n (desired_idx b') p" using slot'[OF p] by simp
      have "(desired_idx b' + j) mod ?n < ?n" using n0 by simp
      from mono[OF this reach[OF j]]
      show "filled (slot ?h' ((desired_idx (slot ?h' p) + j) mod alloc_size ?h'))"
        using slot'[OF p] by simp
    qed
    then show ?thesis
      using True b' slot'[OF p] by (simp add: slot_ok_def)
  next
    case False
    from inv i have ok: "slot_ok h i" by (simp add: chain_inv_def)
    have si: "slot ?h' i = slot h i" using slot'[OF i] False by simp
    show ?thesis
    proof (cases "filled (slot h i)")
      case f: True
      with ok have pr: "probe_reaches h i" by (simp add: slot_ok_def)
      have "probe_reaches ?h' i"
        unfolding probe_reaches_def
      proof (intro ballI)
        fix j assume "j \<in> {0..<dist (alloc_size ?h') (desired_idx (slot ?h' i)) i}"
        then have j: "j < dist ?n (desired_idx (slot h i)) i" using si by simp
        then have "filled (slot h ((desired_idx (slot h i) + j) mod ?n))"
          using pr by (simp add: probe_reaches_def)
        moreover have "(desired_idx (slot h i) + j) mod ?n < ?n" using n0 by simp
        ultimately show "filled (slot ?h' ((desired_idx (slot ?h' i) + j) mod alloc_size ?h'))"
          using mono si by simp
      qed
      with ok f show ?thesis using si by (auto simp: slot_ok_def split: option.splits)
    next
      case False
      then show ?thesis using si by (simp add: slot_ok_def)
    qed
  qed
  have sp: "slot ?h' p = b'" using slot'[OF p] by simp
  have so: "\<And>q. q < ?n \<Longrightarrow> q \<noteq> p \<Longrightarrow> slot ?h' q = slot h q" using slot' by simp
  have c4: "keys_distinct ?h'"
    unfolding keys_distinct_def
  proof (intro ballI impI)
    fix i j
    assume "i \<in> {0..<alloc_size ?h'}" "j \<in> {0..<alloc_size ?h'}"
      and ij: "i \<noteq> j \<and> filled (slot ?h' i)"
    then have i: "i < ?n" and j: "j < ?n" by simp_all
    have goal: "\<not> slot_holds h ki (slot ?h' j)" if ki: "key (slot ?h' i) = Some ki" for ki
    proof (cases "i = p")
      case True
      then have jp: "j \<noteq> p" using ij by blast
      have "ki = k" using ki True sp b'(2) by simp
      then show ?thesis using others[OF j jp] so[OF j jp] by simp
    next
      case ip: False
      have si: "slot ?h' i = slot h i" using so[OF i ip] .
      then have fi: "filled (slot h i)" using ij by simp
      have ki': "key (slot h i) = Some ki" using ki si by simp
      from slot_okD[OF inv i fi] ki' have kok: "key_ok h ki" by auto
      show ?thesis
      proof (cases "j = p")
        case True
        have "\<not> key_equals h k ki" using others[OF i ip] fi ki' by (simp add: slot_holds_def)
        then have "\<not> key_equals h ki k" using key_equals_sym[OF kok b'(3)] by blast
        then have "\<not> slot_holds h ki b'" using b'(2) by (simp add: slot_holds_def)
        then show ?thesis using True sp by simp
      next
        case False
        have "\<not> slot_holds h ki (slot h j)"
          using keys_distinctD[OF inv i j _ fi ki'] ij by blast
        then show ?thesis using so[OF j False] by simp
      qed
    qed
    show "case key (slot ?h' i) of None \<Rightarrow> True
          | Some k \<Rightarrow> \<not> slot_holds ?h' k (slot ?h' j)"
      using goal by (simp split: option.splits)
  qed
  show ?thesis
    unfolding chain_inv_def using c1 c2 c3 c4 by simp
qed

lemma holds_key_ok:
  assumes "chain_inv h" and "i < alloc_size h" and "slot_holds h k (slot h i)"
  obtains ki where "key (slot h i) = Some ki" and "key_ok h ki" and "key_equals h k ki"
    and "filled (slot h i)"
proof -
  from assms(3) have f: "filled (slot h i)" by (simp add: slot_holds_def)
  from slot_okD[OF assms(1,2) f] obtain ki where ki: "key (slot h i) = Some ki" "key_ok h ki"
    by blast
  with assms(3) have "key_equals h k ki" by (simp add: slot_holds_def)
  with ki f show ?thesis using that by blast
qed

lemma update_entries:
  assumes inv: "chain_inv h" and p: "p < alloc_size h"
    and b': "filled b'" "key b' = Some k" "key_ok h k" "val b' = v"
    and others: "\<And>j. j < alloc_size h \<Longrightarrow> j \<noteq> p \<Longrightarrow> \<not> slot_holds h k (slot h j)"
    and old: "\<not> filled (slot h p) \<or> slot_holds h k (slot h p)"
    and k2: "key_ok h k2"
  shows "has_entry (h\<lparr>buckets := (buckets h)[p := b'], size_n := s'\<rparr>) k2 v2 \<longleftrightarrow>
           (if key_equals h k2 k then v2 = v else has_entry h k2 v2)"
proof -
  let ?n = "alloc_size h"
  let ?h' = "h\<lparr>buckets := (buckets h)[p := b'], size_n := s'\<rparr>"
  from inv have len: "length (buckets h) = ?n" by (simp add: chain_inv_def)
  have sp: "slot ?h' p = b'" using len p by simp
  have so: "\<And>q. q < ?n \<Longrightarrow> q \<noteq> p \<Longrightarrow> slot ?h' q = slot h q" using len by simp
  have hb: "slot_holds h k2 b' \<longleftrightarrow> key_equals h k2 k" using b' by (simp add: slot_holds_def)
  have expand: "has_entry ?h' k2 v2 \<longleftrightarrow>
      (slot_holds h k2 b' \<and> v = v2) \<or>
      (\<exists>i<?n. i \<noteq> p \<and> slot_holds h k2 (slot h i) \<and> val (slot h i) = v2)"
    (is "?L \<longleftrightarrow> ?A \<or> ?B")
  proof
    assume ?L
    then obtain i where i: "i < ?n" "slot_holds h k2 (slot ?h' i)" "val (slot ?h' i) = v2"
      by (auto simp: has_entry_def)
    show "?A \<or> ?B"
    proof (cases "i = p")
      case True
      then show ?thesis using i sp b'(4) by simp
    next
      case False
      then show ?thesis using i so[OF i(1) False] by auto
    qed
  next
    assume "?A \<or> ?B"
    then show ?L
    proof
      assume ?A
      then have "slot_holds h k2 (slot ?h' p) \<and> val (slot ?h' p) = v2" using sp b'(4) by simp
      then show ?L using p unfolding has_entry_def by (intro bexI[of _ p]) simp_all
    next
      assume ?B
      then obtain i where i: "i < ?n" "i \<noteq> p" "slot_holds h k2 (slot h i)" "val (slot h i) = v2"
        by blast
      then have "slot_holds h k2 (slot ?h' i) \<and> val (slot ?h' i) = v2" using so[OF i(1,2)] by simp
      then show ?L using i(1) unfolding has_entry_def by (intro bexI[of _ i]) simp_all
    qed
  qed
  show ?thesis
  proof (cases "key_equals h k2 k")
    case True
    have "\<not> slot_holds h k2 (slot h i)" if i: "i < ?n" "i \<noteq> p" for i
    proof
      assume "slot_holds h k2 (slot h i)"
      from holds_key_ok[OF inv i(1) this] obtain ki where ki: "key (slot h i) = Some ki"
        "key_ok h ki" "key_equals h k2 ki" "filled (slot h i)" by blast
      have "key_equals h k ki" using True ki(2,3) k2 b'(3) by (simp add: key_equals_span)
      then have "slot_holds h k (slot h i)" using ki by (simp add: slot_holds_def)
      with others[OF i] show False by contradiction
    qed
    then show ?thesis using expand hb True by auto
  next
    case False
    have "\<not> slot_holds h k2 (slot h p)"
    proof
      assume a: "slot_holds h k2 (slot h p)"
      from holds_key_ok[OF inv p a] obtain kp where kp: "key (slot h p) = Some kp"
        "key_ok h kp" "key_equals h k2 kp" "filled (slot h p)" by blast
      with old have "key_equals h k kp" by (simp add: slot_holds_def)
      then have "key_equals h k2 k" using kp(2,3) k2 b'(3) by (simp add: key_equals_span)
      with False show False by contradiction
    qed
    then have "has_entry h k2 v2 \<longleftrightarrow>
       (\<exists>i<?n. i \<noteq> p \<and> slot_holds h k2 (slot h i) \<and> val (slot h i) = v2)"
      unfolding has_entry_def by auto
    then show ?thesis using expand hb False by simp
  qed
qed

lemma room_empty_slot:
  assumes "chain_inv h" and "size_n h < alloc_size h"
  obtains e where "e < alloc_size h" and "\<not> filled (slot h e)"
proof -
  from assms have "length (filter filled (buckets h)) < length (buckets h)"
    by (simp add: chain_inv_def)
  from filter_count_room[OF this] show ?thesis using that assms(1) by (auto simp: chain_inv_def)
qed

lemma set_lower_correct:
  assumes inv: "chain_inv h" and k: "key_ok h k" and room: "size_n h < alloc_size h"
  shows "\<exists>old h'. hashmap_set_lower h k v (hash_key h k) = Some (old, h') \<and> chain_inv h' \<and>
     alloc_size h' = alloc_size h \<and> min_size h' = min_size h \<and> key_size h' = key_size h \<and>
     copy_keys h' = copy_keys h \<and>
     (if has_key h k then has_entry h k old \<and> size_n h' = size_n h
      else old = NULL \<and> size_n h' = size_n h + 1) \<and>
     (\<forall>k2 v2. key_ok h k2 \<longrightarrow>
        (has_entry h' k2 v2 \<longleftrightarrow> (if key_equals h k2 k then v2 = v else has_entry h k2 v2)))"
proof (cases "has_key h k")
  case True
  let ?n = "alloc_size h"
  from True obtain i where i: "i < ?n" "slot_holds h k (slot h i)" by (auto simp: has_key_def)
  from holds_key_ok[OF inv i] obtain ki where ki: "key (slot h i) = Some ki" "key_ok h ki"
    "key_equals h k ki" "filled (slot h i)" by blast
  from slot_okD[OF inv i(1) ki(4)] ki(1) have sk: "hash (slot h i) = hash_key h ki"
    "desired_idx (slot h i) = unat (hash_key h ki) mod ?n" "probe_reaches h i" by auto
  have hk: "hash_key h k = hash_key h ki" using k ki(2,3) by (rule key_equals_hash)
  define b' where "b' = (slot h i)\<lparr>key := Some k, val := v,
     desired_idx := unat (hash (slot h i)) mod ?n\<rparr>"
  define h' where "h' = h\<lparr>buckets := (buckets h)[i := b'], size_n := size_n h\<rparr>"
  have res: "hashmap_set_lower h k v (hash_key h k) = Some (val (slot h i), h')"
    using lookup_present[OF inv k i] ki(4)
    by (simp add: hashmap_set_lower_def Let_def b'_def h'_def)
  have others: "\<And>j. j < ?n \<Longrightarrow> j \<noteq> i \<Longrightarrow> \<not> slot_holds h k (slot h j)"
    using holds_unique[OF inv k _ _ i] by blast
  have bf: "filled b'" "key b' = Some k" "val b' = v" "hash b' = hash_key h k"
    "desired_idx b' = unat (hash b') mod ?n" "desired_idx b' = desired_idx (slot h i)"
    using ki(4) sk hk by (simp_all add: b'_def)
  have "chain_inv h'"
    unfolding h'_def
  proof (rule chain_inv_update[OF inv i(1) bf(1,2) k bf(4,5)])
    fix j assume "j < dist ?n (desired_idx b') i"
    then show "filled (slot h ((desired_idx b' + j) mod ?n))"
      using sk(3) bf(6) by (simp add: probe_reaches_def)
  next
    show "size_n h = (if filled (slot h i) then size_n h else size_n h + 1)" using ki(4) by simp
  qed (rule others)
  moreover have "has_entry h k (val (slot h i))"
    using i unfolding has_entry_def by (intro bexI[of _ i]) simp_all
  moreover have "\<forall>k2 v2. key_ok h k2 \<longrightarrow>
        (has_entry h' k2 v2 \<longleftrightarrow> (if key_equals h k2 k then v2 = v else has_entry h k2 v2))"
    unfolding h'_def
    using update_entries[OF inv i(1) bf(1,2) k bf(3) others] i(2) by blast
  ultimately show ?thesis
    using res True by (simp add: h'_def)
next
  case False
  let ?n = "alloc_size h"
  let ?hs = "hash_key h k"
  from False have absent: "\<And>i. i < ?n \<Longrightarrow> \<not> slot_holds h k (slot h i)"
    by (auto simp: has_key_def)
  from room_empty_slot[OF inv room] obtain e0 where e0: "e0 < ?n" "\<not> filled (slot h e0)"
    by blast
  have keys: "\<And>i. i < ?n \<Longrightarrow> filled (slot h i) \<Longrightarrow> key (slot h i) \<noteq> None"
    using slot_okD[OF inv] by fastforce
  from lookup_absent[of h k, OF keys absent e0, of ?hs]
  obtain e where e: "e < ?n" "get_bucket_index h k ?hs = Some e" "\<not> filled (slot h e)"
    "\<forall>j<dist ?n (unat ?hs mod ?n) e. filled (slot h ((unat ?hs mod ?n + j) mod ?n))"
    by blast
  define b' where "b' = (slot h e)\<lparr>filled := True, hash := ?hs, key := Some k, val := v,
     desired_idx := unat ?hs mod ?n\<rparr>"
  define h' where "h' = h\<lparr>buckets := (buckets h)[e := b'], size_n := size_n h + 1\<rparr>"
  have res: "hashmap_set_lower h k v ?hs = Some (NULL, h')"
    using e(2,3) by (simp add: hashmap_set_lower_def Let_def b'_def h'_def)
  have bf: "filled b'" "key b' = Some k" "val b' = v" "hash b' = hash_key h k"
    "desired_idx b' = unat (hash b') mod ?n"
    by (simp_all add: b'_def)
  have "chain_inv h'"
    unfolding h'_def
  proof (rule chain_inv_update[OF inv e(1) bf(1,2) k bf(4,5)])
    fix j assume "j < dist ?n (desired_idx b') e"
    then show "filled (slot h ((desired_idx b' + j) mod ?n))"
      using e(4) by (simp add: b'_def)
  next
    show "size_n h + 1 = (if filled (slot h e) then size_n h else size_n h + 1)"
      using e(3) by simp
  qed (use absent in blast)
  moreover have "\<forall>k2 v2. key_ok h k2 \<longrightarrow>
        (has_entry h' k2 v2 \<longleftrightarrow> (if key_equals h k2 k then v2 = v else has_entry h k2 v2))"
    unfolding h'_def
    using update_entries[OF inv e(1) bf(1,2) k bf(3) absent] e(3) by blast
  ultimately show ?thesis
    using res False by (simp add: h'_def)
qed

section \<open>Lookup, rehashing and insertion\<close>

lemma has_key_entry: "has_key h k \<longleftrightarrow> (\<exists>v. has_entry h k v)"
  by (auto simp: has_key_def has_entry_def)

lemma has_entry_unique:
  assumes "chain_inv h" and "key_ok h k" and "has_entry h k v1" and "has_entry h k v2"
  shows "v1 = v2"
proof -
  from assms(3) obtain i where i: "i < alloc_size h" "slot_holds h k (slot h i)" "val (slot h i) = v1"
    by (auto simp: has_entry_def)
  from assms(4) obtain j where j: "j < alloc_size h" "slot_holds h k (slot h j)" "val (slot h j) = v2"
    by (auto simp: has_entry_def)
  from holds_unique[OF assms(1,2) i(1,2) j(1,2)] i(3) j(3) show ?thesis by simp
qed

lemma lookup_has_entry:
  assumes inv: "chain_inv h" and k: "key_ok h k" and e: "has_entry h k v"
  shows "hashmap_get h k = Some v" and "hashmap_may_get h k = Some (True, Some v)"
    and "hashmap_has h k = Some True"
proof -
  from e obtain i where i: "i < alloc_size h" "slot_holds h k (slot h i)" "val (slot h i) = v"
    by (auto simp: has_entry_def)
  from i(2) have f: "filled (slot h i)" by (simp add: slot_holds_def)
  note lookup_present[OF inv k i(1,2)]
  then show "hashmap_get h k = Some v" and "hashmap_may_get h k = Some (True, Some v)"
    and "hashmap_has h k = Some True"
    using f i(3) by (simp_all add: hashmap_get_def hashmap_may_get_def hashmap_has_def)
qed

lemma lookup_no_key:
  assumes inv: "chain_inv h" and room: "size_n h < alloc_size h" and e: "\<not> has_key h k"
  shows "hashmap_get h k = Some NULL" and "hashmap_may_get h k = Some (False, None)"
    and "hashmap_has h k = Some False"
    and "\<exists>e<alloc_size h. get_bucket_index h k (hash_key h k) = Some e \<and> \<not> filled (slot h e)"
proof -
  let ?n = "alloc_size h"
  from e have absent: "\<And>i. i < ?n \<Longrightarrow> \<not> slot_holds h k (slot h i)"
    by (auto simp: has_key_def)
  from room_empty_slot[OF inv room] obtain e0 where e0: "e0 < ?n" "\<not> filled (slot h e0)"
    by blast
  have keys: "\<And>i. i < ?n \<Longrightarrow> filled (slot h i) \<Longrightarrow> key (slot h i) \<noteq> None"
    using slot_okD[OF inv] by fastforce
  from lookup_absent[of h k, OF keys absent e0, of "hash_key h k"]
  obtain e where e: "e < ?n" "get_bucket_index h k (hash_key h k) = Some e" "\<not> filled (slot h e)"
    by blast
  then show "hashmap_get h k = Some NULL" and "hashmap_may_get h k = Some (False, None)"
    and "hashmap_has h k = Some False"
    and "\<exists>e<alloc_size h. get_bucket_index h k (hash_key h k) = Some e \<and> \<not> filled (slot h e)"
    by (auto simp: hashmap_get_def hashmap_may_get_def hashmap_has_def)
qed

lemma may_get_iff:
  assumes inv: "chain_inv h" and k: "key_ok h k" and room: "size_n h < alloc_size h"
  shows "hashmap_may_get h k = Some (True, Some v) \<longleftrightarrow> has_entry h k v"
proof
  assume a: "hashmap_may_get h k = Some (True, Some v)"
  show "has_entry h k v"
  proof (cases "has_key h k")
    case True
    then obtain v' where v': "has_entry h k v'" by (auto simp: has_key_entry)
    from lookup_has_entry(2)[OF inv k v'] a show ?thesis using v' by simp
  next
    case False
    from lookup_no_key(2)[OF inv room False] a show ?thesis by simp
  qed
next
  assume "has_entry h k v"
  then show "hashmap_may_get h k = Some (True, Some v)" by (rule lookup_has_entry(2)[OF inv k])
qed

lemma has_iff:
  assumes inv: "chain_inv h" and k: "key_ok h k" and room: "size_n h < alloc_size h"
  shows "hashmap_has h k = Some (has_key h k)"
proof (cases "has_key h k")
  case True
  then obtain v' where v': "has_entry h k v'" by (auto simp: has_key_entry)
  from lookup_has_entry(3)[OF inv k v'] True show ?thesis by simp
next
  case False
  from lookup_no_key(3)[OF inv room False] False show ?thesis by simp
qed

lemma chain_inv_fresh:
  "chain_inv (h\<lparr>size_n := 0, alloc_size := n, buckets := replicate n zero_bucket\<rparr>)"
  by (simp add: chain_inv_def slot_ok_def keys_distinct_def zero_bucket_def)

lemma has_entry_fresh:
  "\<not> has_entry (h\<lparr>size_n := 0, alloc_size := n, buckets := replicate n zero_bucket\<rparr>) k v"
  by (simp add: has_entry_def slot_holds_def zero_bucket_def)

lemma rehash_loop_correct:
  assumes inv0: "chain_inv h0"
    and m: "m \<le> alloc_size h0"
    and inv: "chain_inv hmap" and ks: "key_size hmap = key_size h0"
    and cnt: "size_n hmap = length (filter filled (take m (buckets h0)))"
    and room: "size_n h0 < alloc_size hmap"
    and ent: "\<And>k2 v2. key_ok h0 k2 \<Longrightarrow>
               has_entry hmap k2 v2 \<longleftrightarrow>
               (\<exists>i<m. slot_holds h0 k2 (slot h0 i) \<and> val (slot h0 i) = v2)"
  shows "\<exists>h'. rehash_loop (drop m (buckets h0)) hmap = Some h' \<and> chain_inv h' \<and>
           alloc_size h' = alloc_size hmap \<and> min_size h' = min_size hmap \<and>
           key_size h' = key_size hmap \<and> copy_keys h' = copy_keys hmap \<and>
           size_n h' = size_n h0 \<and>
           (\<forall>k2 v2. key_ok h0 k2 \<longrightarrow> (has_entry h' k2 v2 \<longleftrightarrow> has_entry h0 k2 v2))"
  using m inv ks cnt room ent
proof (induction "alloc_size h0 - m" arbitrary: m hmap)
  case 0
  then have m: "m = alloc_size h0" by simp
  from inv0 have len: "length (buckets h0) = alloc_size h0" by (simp add: chain_inv_def)
  have "size_n hmap = size_n h0" using 0(5) m len inv0 by (simp add: chain_inv_def)
  moreover have "\<forall>k2 v2. key_ok h0 k2 \<longrightarrow> (has_entry hmap k2 v2 \<longleftrightarrow> has_entry h0 k2 v2)"
    using 0(7) m by (auto simp: has_entry_def)
  ultimately show ?case using 0(3) m len by simp
next
  case (Suc d)
  let ?n0 = "alloc_size h0"
  from inv0 have len: "length (buckets h0) = ?n0" by (simp add: chain_inv_def)
  from Suc(2) have m: "m < ?n0" by simp
  have dr: "drop m (buckets h0) = slot h0 m # drop (Suc m) (buckets h0)"
    using m len by (simp add: Cons_nth_drop_Suc)
  have tk: "take (Suc m) (buckets h0) = take m (buckets h0) @ [slot h0 m]"
    using m len by (simp add: take_Suc_conv_app_nth)
  note keq = key_size_cong[OF Suc(5)] slot_holds_cong[OF Suc(5)]
  show ?case
  proof (cases "filled (slot h0 m)")
    case False
    have "\<exists>h'. rehash_loop (drop (Suc m) (buckets h0)) hmap = Some h' \<and> chain_inv h' \<and>
           alloc_size h' = alloc_size hmap \<and> min_size h' = min_size hmap \<and>
           key_size h' = key_size hmap \<and> copy_keys h' = copy_keys hmap \<and>
           size_n h' = size_n h0 \<and>
           (\<forall>k2 v2. key_ok h0 k2 \<longrightarrow> (has_entry h' k2 v2 \<longleftrightarrow> has_entry h0 k2 v2))"
    proof (rule Suc(1))
      show "d = ?n0 - Suc m" using Suc(2) by simp
      show "Suc m \<le> ?n0" using m by simp
      show "chain_inv hmap" by (rule Suc(4))
      show "key_size hmap = key_size h0" by (rule Suc(5))
      show "size_n hmap = length (filter filled (take (Suc m) (buckets h0)))"
        using Suc(6) tk False by simp
      show "size_n h0 < alloc_size hmap" by (rule Suc(7))
    next
      fix k2 v2 assume k2: "key_ok h0 k2"
      have "(\<exists>i<Suc m. slot_holds h0 k2 (slot h0 i) \<and> val (slot h0 i) = v2) \<longleftrightarrow>
            (\<exists>i<m. slot_holds h0 k2 (slot h0 i) \<and> val (slot h0 i) = v2)"
        using False by (auto simp: less_Suc_eq slot_holds_def)
      then show "has_entry hmap k2 v2 \<longleftrightarrow>
               (\<exists>i<Suc m. slot_holds h0 k2 (slot h0 i) \<and> val (slot h0 i) = v2)"
        using Suc(8)[OF k2] by simp
    qed
    then show ?thesis using dr False by simp
  next
    case True
    from slot_okD[OF inv0 m True] obtain km where km: "key (slot h0 m) = Some km"
      "key_ok h0 km" "hash (slot h0 m) = hash_key h0 km" by blast
    have holds_m: "slot_holds h0 km (slot h0 m)"
      using True km key_equals_refl[OF km(2)] by (simp add: slot_holds_def)
    have "size_n hmap \<le> size_n h0"
    proof -
      have "length (filter filled (take m (buckets h0))) \<le> length (filter filled (buckets h0))"
        by (subst (2) append_take_drop_id[of m "buckets h0", symmetric]) (simp del: append_take_drop_id)
      then show ?thesis using Suc(6) inv0 by (simp add: chain_inv_def)
    qed
    then have room': "size_n hmap < alloc_size hmap" using Suc(7) by simp
    have kok: "key_ok hmap km" using km(2) keq(3) by simp
    have nokey: "\<not> has_key hmap km"
    proof
      assume "has_key hmap km"
      then obtain v' where "has_entry hmap km v'" by (auto simp: has_key_entry)
      with Suc(8)[OF km(2)] obtain i where i: "i < m" "slot_holds h0 km (slot h0 i)" by blast
      from holds_unique[OF inv0 km(2) _ i(2) m holds_m] i(1) m show False by simp
    qed
    from set_lower_correct[OF Suc(4) kok room', of "val (slot h0 m)"]
    obtain old h1 where h1:
      "hashmap_set_lower hmap km (val (slot h0 m)) (hash_key hmap km) = Some (old, h1)"
      "chain_inv h1" "alloc_size h1 = alloc_size hmap" "min_size h1 = min_size hmap"
      "key_size h1 = key_size hmap" "copy_keys h1 = copy_keys hmap"
      "size_n h1 = size_n hmap + 1"
      "\<And>k2 v2. key_ok hmap k2 \<Longrightarrow>
        (has_entry h1 k2 v2 \<longleftrightarrow> (if key_equals hmap k2 km then v2 = val (slot h0 m) else has_entry hmap k2 v2))"
      using nokey by auto
    have "\<exists>h'. rehash_loop (drop (Suc m) (buckets h0)) h1 = Some h' \<and> chain_inv h' \<and>
           alloc_size h' = alloc_size h1 \<and> min_size h' = min_size h1 \<and>
           key_size h' = key_size h1 \<and> copy_keys h' = copy_keys h1 \<and>
           size_n h' = size_n h0 \<and>
           (\<forall>k2 v2. key_ok h0 k2 \<longrightarrow> (has_entry h' k2 v2 \<longleftrightarrow> has_entry h0 k2 v2))"
    proof (rule Suc(1))
      show "d = ?n0 - Suc m" using Suc(2) by simp
      show "Suc m \<le> ?n0" using m by simp
      show "chain_inv h1" by (rule h1(2))
      show "key_size h1 = key_size h0" using h1(5) Suc(5) by simp
      show "size_n h1 = length (filter filled (take (Suc m) (buckets h0)))"
        using Suc(6) tk True h1(7) by simp
      show "size_n h0 < alloc_size h1" using Suc(7) h1(3) by simp
    next
      fix k2 v2 assume k2: "key_ok h0 k2"
      then have k2': "key_ok hmap k2" using keq(3) by simp
      show "has_entry h1 k2 v2 \<longleftrightarrow>
               (\<exists>i<Suc m. slot_holds h0 k2 (slot h0 i) \<and> val (slot h0 i) = v2)"
      proof (cases "key_equals h0 k2 km")
        case eq: True
        then have hm: "slot_holds h0 k2 (slot h0 m)" using True km by (simp add: slot_holds_def)
        have "(\<exists>i<Suc m. slot_holds h0 k2 (slot h0 i) \<and> val (slot h0 i) = v2) \<longleftrightarrow>
              val (slot h0 m) = v2"
          using holds_unique[OF inv0 k2 _ _ m hm] m hm by (metis less_Suc_eq less_trans lessI)
        then show ?thesis using h1(8)[OF k2'] eq keq(1) by auto
      next
        case ne: False
        then have "\<not> slot_holds h0 k2 (slot h0 m)" using km by (simp add: slot_holds_def)
        then have "(\<exists>i<Suc m. slot_holds h0 k2 (slot h0 i) \<and> val (slot h0 i) = v2) \<longleftrightarrow>
            (\<exists>i<m. slot_holds h0 k2 (slot h0 i) \<and> val (slot h0 i) = v2)"
          by (auto simp: less_Suc_eq)
        then show ?thesis using h1(8)[OF k2'] ne keq(1) Suc(8)[OF k2] by simp
      qed
    qed
    then show ?thesis
      using dr True km h1(1,3,4,5,6) keq(2) by auto
  qed
qed

lemma rehash_correct:
  assumes inv: "chain_inv h" and room: "size_n h < new_size" and floor: "min_size h \<le> new_size"
  shows "\<exists>h'. rehash h new_size = Some h' \<and> chain_inv h' \<and>
           alloc_size h' = new_size \<and> min_size h' = min_size h \<and>
           key_size h' = key_size h \<and> copy_keys h' = copy_keys h \<and>
           size_n h' = size_n h \<and>
           (\<forall>k2 v2. key_ok h k2 \<longrightarrow> (has_entry h' k2 v2 \<longleftrightarrow> has_entry h k2 v2))"
proof -
  let ?f = "h\<lparr>size_n := 0, alloc_size := new_size, buckets := replicate new_size zero_bucket\<rparr>"
  have "\<exists>h'. rehash_loop (drop 0 (buckets h)) ?f = Some h' \<and> chain_inv h' \<and>
           alloc_size h' = alloc_size ?f \<and> min_size h' = min_size ?f \<and>
           key_size h' = key_size ?f \<and> copy_keys h' = copy_keys ?f \<and>
           size_n h' = size_n h \<and>
           (\<forall>k2 v2. key_ok h k2 \<longrightarrow> (has_entry h' k2 v2 \<longleftrightarrow> has_entry h k2 v2))"
  proof (rule rehash_loop_correct[OF inv])
    show "chain_inv ?f" by (rule chain_inv_fresh)
    show "size_n h < alloc_size ?f" using room by simp
  next
    fix k2 v2
    show "has_entry ?f k2 v2 \<longleftrightarrow> (\<exists>i<0. slot_holds h k2 (slot h i) \<and> val (slot h i) = v2)"
      using has_entry_fresh by simp
  qed simp_all
  then show ?thesis using floor by (simp add: rehash_def)
qed

lemma str_equals_copy_left: "0 \<in> set k \<Longrightarrow> str_equals (str_bytes k) other = str_equals k other"
proof (induction k arbitrary: other)
  case Nil
  then show ?case by simp
next
  case (Cons a k)
  then show ?case by (cases other) auto
qed

lemma str_equals_copy_right: "0 \<in> set k \<Longrightarrow> str_equals a (str_bytes k) = str_equals a k"
proof (induction k arbitrary: a)
  case Nil
  then show ?case by simp
next
  case (Cons b k)
  then show ?case by (cases a) auto
qed

lemma mem_equals_take_left: "n \<le> length k \<Longrightarrow> mem_equals n (take n k) other = mem_equals n k other"
proof (induction n arbitrary: k other)
  case 0
  then show ?case by simp
next
  case (Suc n)
  then obtain a k' where k: "k = a # k'" by (cases k) auto
  with Suc show ?case by (cases other) auto
qed

lemma mem_equals_take_right: "n \<le> length k \<Longrightarrow> mem_equals n a (take n k) = mem_equals n a k"
proof (induction n arbitrary: k a)
  case 0
  then show ?case by simp
next
  case (Suc n)
  then obtain b k' where k: "k = b # k'" by (cases k) auto
  with Suc show ?case by (cases a) auto
qed

lemma key_equals_copy:
  assumes "key_ok h k"
  shows "key_equals h (copy_key h k) other = key_equals h k other"
    and "key_equals h a (copy_key h k) = key_equals h a k"
  using assms
  by (simp_all add: key_equals_def copy_key_def key_ok_def str_equals_copy_left
      str_equals_copy_right mem_equals_take_left mem_equals_take_right)

lemma hash_key_copy: "hash_key h (copy_key h k) = hash_key h k"
  by (simp add: hash_key_span copy_key_span)

lemma slot_holds_copy:
  assumes "key_ok h k"
  shows "slot_holds h (copy_key h k) = slot_holds h k"
  unfolding fun_eq_iff slot_holds_def key_equals_copy(1)[OF assms] by simp

lemma has_entry_copy:
  assumes "key_ok h k"
  shows "has_entry h (copy_key h k) v = has_entry h k v" and "has_key h (copy_key h k) = has_key h k"
  by (simp_all add: has_entry_def has_key_def slot_holds_copy[OF assms])

lemma set_correct:
  assumes inv: "hmap_inv h" and k: "key_ok h k"
  shows "\<exists>old h'. hashmap_set h k v = Some (old, h') \<and> hmap_inv h' \<and>
     alloc_size h' = (if alloc_size h div 2 \<le> size_n h then alloc_size h * 2 else alloc_size h) \<and>
     min_size h' = min_size h \<and> key_size h' = key_size h \<and> copy_keys h' = copy_keys h \<and>
     (if has_key h k then has_entry h k old \<and> size_n h' = size_n h
      else old = NULL \<and> size_n h' = size_n h + 1) \<and>
     (\<forall>k2 v2. key_ok h k2 \<longrightarrow>
        (has_entry h' k2 v2 \<longleftrightarrow> (if key_equals h k2 k then v2 = v else has_entry h k2 v2)))"
proof -
  let ?A = "if alloc_size h div 2 \<le> size_n h then alloc_size h * 2 else alloc_size h"
  from inv have cinv: "chain_inv h" and fl: "MIN_HASHMAP_SIZE \<le> min_size h"
    "min_size h \<le> alloc_size h" and load: "size_n h \<le> alloc_size h div 2"
    by (simp_all add: hmap_inv_def)
  have pos: "0 < alloc_size h" using fl by (simp add: MIN_HASHMAP_SIZE_def)
  have "\<exists>h1. (if size_n h \<ge> alloc_size h div 2 then rehash h (alloc_size h * 2) else Some h) = Some h1
      \<and> chain_inv h1 \<and> alloc_size h1 = ?A \<and> min_size h1 = min_size h \<and>
      key_size h1 = key_size h \<and> copy_keys h1 = copy_keys h \<and> size_n h1 = size_n h \<and>
      (\<forall>k2 v2. key_ok h k2 \<longrightarrow> (has_entry h1 k2 v2 \<longleftrightarrow> has_entry h k2 v2))"
  proof (cases "alloc_size h div 2 \<le> size_n h")
    case True
    have "size_n h < alloc_size h * 2" using load pos by simp
    moreover have "min_size h \<le> alloc_size h * 2" using fl by simp
    ultimately show ?thesis using rehash_correct[OF cinv, of "alloc_size h * 2"] True by simp
  next
    case False
    then show ?thesis using cinv by simp
  qed
  then obtain h1 where h1:
    "(if size_n h \<ge> alloc_size h div 2 then rehash h (alloc_size h * 2) else Some h) = Some h1"
    "chain_inv h1" "alloc_size h1 = ?A" "min_size h1 = min_size h"
    "key_size h1 = key_size h" "copy_keys h1 = copy_keys h" "size_n h1 = size_n h"
    "\<And>k2 v2. key_ok h k2 \<Longrightarrow> (has_entry h1 k2 v2 \<longleftrightarrow> has_entry h k2 v2)"
    by blast
  note keq = key_size_cong[OF h1(5)]
  define k1 where "k1 = (if copy_keys h1 then copy_key h1 k else k)"
  have k': "key_ok h1 k" using k keq(3) by simp
  have k1: "key_ok h1 k1" using k' by (simp add: k1_def copy_key_ok)
  have k1eq: "\<And>a. key_equals h1 a k1 = key_equals h a k"
    using key_equals_copy(2)[OF k'] keq(1) by (simp add: k1_def)
  have k1has: "has_key h1 k1 = has_key h k" "\<And>v. has_entry h1 k1 v = has_entry h k v"
    using has_entry_copy(1)[OF k'] h1(8)[OF k] by (auto simp: k1_def has_key_entry)
  have k1hash: "hash_key h1 k1 = hash_key h1 k" by (simp add: k1_def hash_key_copy)
  have load1: "size_n h1 + 1 \<le> alloc_size h1 div 2"
    using load pos h1(3,7) by (auto split: if_splits)
  then have room: "size_n h1 < alloc_size h1" by simp
  from set_lower_correct[OF h1(2) k1 room, of v]
  obtain old h' where h': "hashmap_set_lower h1 k1 v (hash_key h1 k1) = Some (old, h')"
    "chain_inv h'" "alloc_size h' = alloc_size h1" "min_size h' = min_size h1"
    "key_size h' = key_size h1" "copy_keys h' = copy_keys h1"
    "if has_key h1 k1 then has_entry h1 k1 old \<and> size_n h' = size_n h1
      else old = NULL \<and> size_n h' = size_n h1 + 1"
    "\<And>k2 v2. key_ok h1 k2 \<Longrightarrow>
        (has_entry h' k2 v2 \<longleftrightarrow> (if key_equals h1 k2 k1 then v2 = v else has_entry h1 k2 v2))"
    by blast
  have res: "hashmap_set h k v = Some (old, h')"
    using h1(1) h'(1) by (simp add: hashmap_set_def k1_def Let_def)
  have l': "size_n h' \<le> alloc_size h' div 2"
    using h'(7) load1 h'(3) by (auto split: if_splits)
  have i': "hmap_inv h'"
    unfolding hmap_inv_def using h'(2) l' fl h'(3,4) h1(3,4) by (simp split: if_splits)
  have e': "\<forall>k2 v2. key_ok h k2 \<longrightarrow>
        (has_entry h' k2 v2 \<longleftrightarrow> (if key_equals h k2 k then v2 = v else has_entry h k2 v2))"
  proof (intro allI impI)
    fix k2 v2 assume k2: "key_ok h k2"
    then have "key_ok h1 k2" using keq(3) by simp
    from h'(8)[OF this] show "has_entry h' k2 v2 \<longleftrightarrow>
       (if key_equals h k2 k then v2 = v else has_entry h k2 v2)"
      using h1(8)[OF k2] k1eq by simp
  qed
  have o': "if has_key h k then has_entry h k old \<and> size_n h' = size_n h
      else old = NULL \<and> size_n h' = size_n h + 1"
    using h'(7) k1has h1(7) by (auto split: if_splits)
  have a': "alloc_size h' = ?A" using h'(3) h1(3) by simp
  have m': "min_size h' = min_size h" "key_size h' = key_size h" "copy_keys h' = copy_keys h"
    using h'(4,5,6) h1(4,5,6) by simp_all
  show ?thesis
    by (intro exI[of _ old] exI[of _ h'] conjI) (rule res i' a' m' o' e')+
qed

section \<open>Evaluating the model on concrete tables\<close>

lemma hash_mem_numeral [simp]:
  "hash_mem (numeral n) h (b # bs) = hash_mem (pred_numeral n) (hash_step h b) bs"
  by (simp add: numeral_eq_Suc)

lemma mem_equals_numeral [simp]:
  "mem_equals (numeral n) (a # as) (b # bs) =
     (if a \<noteq> b then False else mem_equals (pred_numeral n) as bs)"
  by (simp add: numeral_eq_Suc)

lemma replicate_numeral_eval: "replicate (numeral k) x = x # replicate (pred_numeral k) x"
  by (simp add: numeral_eq_Suc)

lemma list_update_numeral_eval: "(x # xs)[numeral k := y] = x # xs[pred_numeral k := y]"
  by (simp add: numeral_eq_Suc)

lemmas eval_defs = replicate_numeral_eval list_update_numeral_eval set_in_def hashmap_create_def hashmap_set_def hashmap_set_lower_def
  get_bucket_index_def get_bucket_loop.simps hash_key_def key_equals_def copy_key_def
  MIN_HASHMAP_SIZE_def zero_bucket_def FNV_BASIS_def FNV_PRIME_def hash_step_def NULL_def
  Let_def rehash_def hashmap_get_def hashmap_may_get_def hashmap_has_def key_ok_def
  remove_in_def hashmap_remove_def remove_loop.simps filter_up_def size_dec_def
  next_loop.simps hmapiter_next_def hmapiter_reset_def hmapiter_create_def

section \<open>Creation and insertion: the claims\<close>

lemma create_inv: "hmap_inv (hashmap_create initial_size ksz ck)"
  by (simp add: hmap_inv_def chain_inv_def slot_ok_def keys_distinct_def hashmap_create_def
      zero_bucket_def)

lemma set_in_inv:
  assumes "hmap_inv h" and "key_ok h k"
  shows "hmap_inv (set_in h k v)" and "key_size (set_in h k v) = key_size h"
  using set_correct[OF assms, of v] by (auto simp: set_in_def)

lemma set_get:
  assumes inv: "hmap_inv h" and k: "key_ok h k"
  shows "\<exists>old h'. hashmap_set h k v = Some (old, h') \<and> hashmap_get h' k = Some v \<and>
           hashmap_may_get h' k = Some (True, Some v)"
proof -
  from set_correct[OF inv k, of v] obtain old h' where h':
    "hashmap_set h k v = Some (old, h')" "hmap_inv h'" "key_size h' = key_size h"
    "\<And>k2 v2. key_ok h k2 \<Longrightarrow>
        (has_entry h' k2 v2 \<longleftrightarrow> (if key_equals h k2 k then v2 = v else has_entry h k2 v2))"
    by blast
  have "has_entry h' k v" using h'(4)[OF k] key_equals_refl[OF k] by simp
  moreover have "key_ok h' k" using k key_size_cong(3)[OF h'(3)] by simp
  moreover have "chain_inv h'" using h'(2) by (simp add: hmap_inv_def)
  ultimately show ?thesis using h'(1) lookup_has_entry(1,2) by blast
qed

text \<open>
  C1.  In every table state that satisfies the invariant, for every readable key \<open>k\<close> and
  every value \<open>v\<close> (the null handle included), \<open>hashmap_set\<close> returns, and on the table
  it leaves \<open>hashmap_get\<close> of \<open>k\<close> returns \<open>v\<close> and \<open>hashmap_may_get\<close> of \<open>k\<close> reports
  the key present with the value \<open>v\<close>.
\<close>

theorem set_then_get:
  assumes "hmap_inv hmap" and "key_ok hmap k"
  shows "\<exists>old hmap'. hashmap_set hmap k v = Some (old, hmap') \<and>
           hashmap_get hmap' k = Some v \<and>
           hashmap_may_get hmap' k = Some (True, Some v)"
  using assms by (rule set_get)

theorem set_then_get_witness:
  "hmap_inv (hashmap_create 8 (- 1) True) \<and> key_ok (hashmap_create 8 (- 1) True) [97, 0] \<and>
   (\<exists>old hmap'. hashmap_set (hashmap_create 8 (- 1) True) [97, 0] NULL = Some (old, hmap') \<and>
      hashmap_get hmap' [97, 0] = Some NULL \<and>
      hashmap_may_get hmap' [97, 0] = Some (True, Some NULL))"
proof -
  have i: "hmap_inv (hashmap_create 8 (- 1) True)" by (rule create_inv)
  have k: "key_ok (hashmap_create 8 (- 1) True) [97, 0]"
    by (simp add: key_ok_def hashmap_create_def)
  from set_then_get[OF i k, of NULL] i k show ?thesis by blast
qed

text \<open>
  C7.  In every table state that satisfies the invariant and for every readable key \<open>k\<close>:
  if \<open>k\<close> is absent, \<open>hashmap_set\<close> returns null and the logical count grows by one; if
  \<open>k\<close> is present with the value \<open>v1\<close>, \<open>hashmap_set\<close> of \<open>k\<close> and \<open>v\<close> returns \<open>v1\<close>,
  leaves the logical count unchanged, and a following \<open>hashmap_get\<close> of \<open>k\<close> returns
  \<open>v\<close>.  One of the two cases always applies.
\<close>

theorem set_absent_or_present:
  assumes "hmap_inv hmap" and "key_ok hmap k"
  shows "(hashmap_has hmap k = Some False \<longrightarrow>
            (\<exists>hmap'. hashmap_set hmap k v = Some (NULL, hmap') \<and>
                      size_n hmap' = size_n hmap + 1)) \<and>
         (\<forall>v1. hashmap_may_get hmap k = Some (True, Some v1) \<longrightarrow>
            (\<exists>hmap'. hashmap_set hmap k v = Some (v1, hmap') \<and>
                      size_n hmap' = size_n hmap \<and> hashmap_get hmap' k = Some v)) \<and>
         (hashmap_has hmap k = Some False \<or>
            (\<exists>v1. hashmap_may_get hmap k = Some (True, Some v1)))"
proof -
  from assms(1) have cinv: "chain_inv hmap" and room: "size_n hmap < alloc_size hmap"
    by (auto simp: hmap_inv_def MIN_HASHMAP_SIZE_def)
  from set_correct[OF assms, of v] obtain old h' where h':
    "hashmap_set hmap k v = Some (old, h')"
    "if has_key hmap k then has_entry hmap k old \<and> size_n h' = size_n hmap
      else old = NULL \<and> size_n h' = size_n hmap + 1"
    by blast
  from set_get[OF assms, of v] h'(1) have get: "hashmap_get h' k = Some v" by auto
  have absent: "\<exists>hmap'. hashmap_set hmap k v = Some (NULL, hmap') \<and> size_n hmap' = size_n hmap + 1"
    if "hashmap_has hmap k = Some False"
  proof -
    from that have "\<not> has_key hmap k" using has_iff[OF cinv assms(2) room] by simp
    then show ?thesis using h' by simp
  qed
  have present: "\<exists>hmap'. hashmap_set hmap k v = Some (v1, hmap') \<and>
                      size_n hmap' = size_n hmap \<and> hashmap_get hmap' k = Some v"
    if "hashmap_may_get hmap k = Some (True, Some v1)" for v1
  proof -
    from that have e: "has_entry hmap k v1" using may_get_iff[OF cinv assms(2) room] by simp
    then have hk: "has_key hmap k" by (auto simp: has_key_entry)
    with h'(2) have "has_entry hmap k old" "size_n h' = size_n hmap" by simp_all
    with has_entry_unique[OF cinv assms(2) e] have "old = v1" by simp
    then show ?thesis using h'(1) \<open>size_n h' = size_n hmap\<close> get by simp
  qed
  have cases: "hashmap_has hmap k = Some False \<or>
            (\<exists>v1. hashmap_may_get hmap k = Some (True, Some v1))"
  proof (cases "has_key hmap k")
    case True
    then obtain v1 where "has_entry hmap k v1" by (auto simp: has_key_entry)
    then show ?thesis using may_get_iff[OF cinv assms(2) room] by blast
  next
    case False
    then show ?thesis using has_iff[OF cinv assms(2) room] by simp
  qed
  from absent present cases show ?thesis by blast
qed

theorem set_absent_or_present_witness:
  "hmap_inv (set_in (hashmap_create 8 1 False) [1] 11) \<and>
   key_ok (set_in (hashmap_create 8 1 False) [1] 11) [1] \<and>
   key_ok (set_in (hashmap_create 8 1 False) [1] 11) [2] \<and>
   hashmap_has (set_in (hashmap_create 8 1 False) [1] 11) [2] = Some False \<and>
   (\<exists>hmap'. hashmap_set (set_in (hashmap_create 8 1 False) [1] 11) [2] 12 = Some (NULL, hmap') \<and>
             size_n hmap' = size_n (set_in (hashmap_create 8 1 False) [1] 11) + 1) \<and>
   hashmap_may_get (set_in (hashmap_create 8 1 False) [1] 11) [1] = Some (True, Some 11) \<and>
   (\<exists>hmap'. hashmap_set (set_in (hashmap_create 8 1 False) [1] 11) [1] 12 = Some (11, hmap') \<and>
             size_n hmap' = size_n (set_in (hashmap_create 8 1 False) [1] 11) \<and>
             hashmap_get hmap' [1] = Some 12)"
proof -
  let ?t = "set_in (hashmap_create 8 1 False) [1] 11"
  have k0: "key_ok (hashmap_create 8 1 False) [1]" by (simp add: key_ok_def hashmap_create_def)
  have i: "hmap_inv ?t" using create_inv k0 by (rule set_in_inv)
  have ks: "key_size ?t = 1" using set_in_inv(2)[OF create_inv k0] by (simp add: hashmap_create_def)
  have k1: "key_ok ?t [1]" and k2: "key_ok ?t [2]" using ks by (simp_all add: key_ok_def)
  have a: "hashmap_has ?t [2] = Some False" by (simp add: eval_defs)
  have p: "hashmap_may_get ?t [1] = Some (True, Some 11)" by (simp add: eval_defs)
  from set_absent_or_present[OF i k2, of 12] a
  have "\<exists>hmap'. hashmap_set ?t [2] 12 = Some (NULL, hmap') \<and> size_n hmap' = size_n ?t + 1"
    by blast
  moreover from set_absent_or_present[OF i k1, of 12] p
  have "\<exists>hmap'. hashmap_set ?t [1] 12 = Some (11, hmap') \<and> size_n hmap' = size_n ?t \<and>
             hashmap_get hmap' [1] = Some 12"
    by blast
  ultimately show ?thesis using i k1 k2 a p by blast
qed




lemma may_get_total:
  assumes inv: "chain_inv h" and k: "key_ok h k" and room: "size_n h < alloc_size h"
  shows "hashmap_may_get h k =
           (if has_key h k then Some (True, Some (THE v. has_entry h k v)) else Some (False, None))"
proof (cases "has_key h k")
  case True
  then obtain v where v: "has_entry h k v" by (auto simp: has_key_entry)
  then have "(THE v. has_entry h k v) = v"
    using has_entry_unique[OF inv k] by (intro the_equality) auto
  then show ?thesis using True lookup_has_entry(2)[OF inv k v] by simp
next
  case False
  then show ?thesis using lookup_no_key(2)[OF inv room False] by simp
qed

text \<open>
  C5, as the code has it.  \<open>hashmap_set\<close> checks the growth trigger before it inserts:
  when the logical count at entry is at least half of the capacity, the capacity doubles
  and every occupied slot is reinserted into the new array (the rehashed table has the
  same logical count and answers every lookup as before), otherwise the capacity stays
  as it is.  The check reads the count before the insertion, so an insertion that brings
  the count to exactly half of the capacity does not grow the table.  After the call
  every key that was present is still retrievable by \<open>hashmap_get\<close>, with its value, and
  the key set is retrievable with the new value.
\<close>

theorem set_growth:
  assumes "hmap_inv hmap" and "key_ok hmap k"
  shows "\<exists>old hmap'. hashmap_set hmap k v = Some (old, hmap') \<and>
           alloc_size hmap' =
             (if alloc_size hmap div 2 \<le> size_n hmap then alloc_size hmap * 2
              else alloc_size hmap) \<and>
           (alloc_size hmap div 2 \<le> size_n hmap \<longrightarrow>
              (\<exists>hmap1. rehash hmap (alloc_size hmap * 2) = Some hmap1 \<and>
                 alloc_size hmap1 = alloc_size hmap * 2 \<and> size_n hmap1 = size_n hmap \<and>
                 chain_inv hmap1 \<and>
                 (\<forall>k2. key_ok hmap k2 \<longrightarrow> hashmap_may_get hmap1 k2 = hashmap_may_get hmap k2))) \<and>
           (\<forall>k2 v2. key_ok hmap k2 \<and> hashmap_may_get hmap k2 = Some (True, Some v2) \<and>
                    \<not> key_equals hmap k2 k \<longrightarrow> hashmap_get hmap' k2 = Some v2) \<and>
           hashmap_get hmap' k = Some v"
proof -
  from assms(1) have cinv: "chain_inv hmap" and room: "size_n hmap < alloc_size hmap"
    and fl: "min_size hmap \<le> alloc_size hmap"
    by (auto simp: hmap_inv_def MIN_HASHMAP_SIZE_def)
  from set_correct[OF assms, of v] obtain old h' where h':
    "hashmap_set hmap k v = Some (old, h')" "hmap_inv h'"
    "alloc_size h' = (if alloc_size hmap div 2 \<le> size_n hmap then alloc_size hmap * 2
              else alloc_size hmap)"
    "key_size h' = key_size hmap"
    "\<And>k2 v2. key_ok hmap k2 \<Longrightarrow>
        (has_entry h' k2 v2 \<longleftrightarrow> (if key_equals hmap k2 k then v2 = v else has_entry hmap k2 v2))"
    by blast
  from h'(2) have cinv': "chain_inv h'" by (simp add: hmap_inv_def)
  note keq = key_size_cong[OF h'(4)]
  have others: "hashmap_get h' k2 = Some v2"
    if "key_ok hmap k2 \<and> hashmap_may_get hmap k2 = Some (True, Some v2) \<and> \<not> key_equals hmap k2 k"
    for k2 v2
  proof -
    from that have k2: "key_ok hmap k2" and ne: "\<not> key_equals hmap k2 k"
      and g: "hashmap_may_get hmap k2 = Some (True, Some v2)" by simp_all
    from g have "has_entry hmap k2 v2" using may_get_iff[OF cinv k2 room] by simp
    with h'(5)[OF k2] ne have "has_entry h' k2 v2" by simp
    moreover have "key_ok h' k2" using k2 keq(3) by simp
    ultimately show ?thesis using lookup_has_entry(1)[OF cinv'] by blast
  qed
  have self: "hashmap_get h' k = Some v"
    using set_get[OF assms, of v] h'(1) by auto
  have grow: "\<exists>hmap1. rehash hmap (alloc_size hmap * 2) = Some hmap1 \<and>
                 alloc_size hmap1 = alloc_size hmap * 2 \<and> size_n hmap1 = size_n hmap \<and>
                 chain_inv hmap1 \<and>
                 (\<forall>k2. key_ok hmap k2 \<longrightarrow> hashmap_may_get hmap1 k2 = hashmap_may_get hmap k2)"
  proof -
    have r: "size_n hmap < alloc_size hmap * 2" "min_size hmap \<le> alloc_size hmap * 2"
      using room fl by simp_all
    from rehash_correct[OF cinv r] obtain h1 where h1:
      "rehash hmap (alloc_size hmap * 2) = Some h1" "chain_inv h1"
      "alloc_size h1 = alloc_size hmap * 2" "key_size h1 = key_size hmap"
      "size_n h1 = size_n hmap"
      "\<And>k2 v2. key_ok hmap k2 \<Longrightarrow> (has_entry h1 k2 v2 \<longleftrightarrow> has_entry hmap k2 v2)"
      by blast
    have "hashmap_may_get h1 k2 = hashmap_may_get hmap k2" if k2: "key_ok hmap k2" for k2
    proof -
      have k2': "key_ok h1 k2" using k2 key_size_cong(3)[OF h1(4)] by simp
      have room1: "size_n h1 < alloc_size h1" using h1(3,5) room by simp
      have "has_entry h1 k2 = has_entry hmap k2" using h1(6)[OF k2] by (simp add: fun_eq_iff)
      then show ?thesis
        using may_get_total[OF h1(2) k2' room1] may_get_total[OF cinv k2 room]
        by (simp add: has_key_entry)
    qed
    then show ?thesis using h1 by blast
  qed
  show ?thesis
    using h'(1,3) grow others self by blast
qed

lemma half_full_table_inv: "hmap_inv half_full_table" "key_size half_full_table = 1"
proof -
  let ?t0 = "hashmap_create 8 1 False"
  let ?t1 = "set_in ?t0 [1] 11"
  let ?t2 = "set_in ?t1 [2] 12"
  let ?t3 = "set_in ?t2 [3] 13"
  have k0: "key_size ?t0 = 1" by (simp add: hashmap_create_def)
  have i1: "hmap_inv ?t1" "key_size ?t1 = 1"
    using set_in_inv[OF create_inv, of 8 1 False "[1]" 11] k0 by (simp_all add: key_ok_def)
  have i2: "hmap_inv ?t2" "key_size ?t2 = 1"
    using set_in_inv[OF i1(1), of "[2]" 12] i1(2) by (simp_all add: key_ok_def)
  have i3: "hmap_inv ?t3" "key_size ?t3 = 1"
    using set_in_inv[OF i2(1), of "[3]" 13] i2(2) by (simp_all add: key_ok_def)
  show "hmap_inv half_full_table" "key_size half_full_table = 1"
    using set_in_inv[OF i3(1), of "[4]" 14] i3(2)
    by (simp_all add: key_ok_def half_full_table_def)
qed

theorem set_growth_witness:
  "hmap_inv half_full_table \<and> key_ok half_full_table [5] \<and>
   size_n half_full_table = 4 \<and> alloc_size half_full_table = 8 \<and>
   key_ok half_full_table [1] \<and> \<not> key_equals half_full_table [1] [5] \<and>
   hashmap_may_get half_full_table [1] = Some (True, Some 11) \<and>
   (\<exists>old hmap'. hashmap_set half_full_table [5] 15 = Some (old, hmap') \<and>
      alloc_size hmap' = 16 \<and>
      (\<exists>hmap1. rehash half_full_table 16 = Some hmap1 \<and> alloc_size hmap1 = 16 \<and>
         size_n hmap1 = 4 \<and> hashmap_may_get hmap1 [1] = Some (True, Some 11)) \<and>
      hashmap_get hmap' [1] = Some 11 \<and> hashmap_get hmap' [5] = Some 15)"
proof -
  note i = half_full_table_inv(1)
  have k5: "key_ok half_full_table [5]" and k1: "key_ok half_full_table [1]"
    using half_full_table_inv(2) by (simp_all add: key_ok_def)
  have ne: "\<not> key_equals half_full_table [1] [5]"
    using half_full_table_inv(2) by (simp add: key_equals_def)
  have ev: "size_n half_full_table = 4" "alloc_size half_full_table = 8"
    "hashmap_may_get half_full_table [1] = Some (True, Some 11)"
    by (simp_all add: eval_defs half_full_table_def)
  have trig: "alloc_size half_full_table div 2 \<le> size_n half_full_table" using ev(1,2) by simp
  from set_growth[OF i k5, of 15] obtain old h' where r:
    "hashmap_set half_full_table [5] 15 = Some (old, h')"
    "alloc_size h' =
       (if alloc_size half_full_table div 2 \<le> size_n half_full_table
        then alloc_size half_full_table * 2 else alloc_size half_full_table)"
    "alloc_size half_full_table div 2 \<le> size_n half_full_table \<longrightarrow>
       (\<exists>hmap1. rehash half_full_table (alloc_size half_full_table * 2) = Some hmap1 \<and>
          alloc_size hmap1 = alloc_size half_full_table * 2 \<and>
          size_n hmap1 = size_n half_full_table \<and> chain_inv hmap1 \<and>
          (\<forall>k2. key_ok half_full_table k2 \<longrightarrow>
             hashmap_may_get hmap1 k2 = hashmap_may_get half_full_table k2))"
    "\<forall>k2 v2. key_ok half_full_table k2 \<and>
        hashmap_may_get half_full_table k2 = Some (True, Some v2) \<and>
        \<not> key_equals half_full_table k2 [5] \<longrightarrow> hashmap_get h' k2 = Some v2"
    "hashmap_get h' [5] = Some 15"
    by blast
  have a16: "alloc_size h' = 16" using r(2) ev(1,2) by simp
  from r(3) trig obtain h1 where h1:
    "rehash half_full_table (alloc_size half_full_table * 2) = Some h1"
    "alloc_size h1 = alloc_size half_full_table * 2" "size_n h1 = size_n half_full_table"
    "\<forall>k2. key_ok half_full_table k2 \<longrightarrow>
       hashmap_may_get h1 k2 = hashmap_may_get half_full_table k2"
    by blast
  have re: "rehash half_full_table 16 = Some h1" "alloc_size h1 = 16" "size_n h1 = 4"
    using h1(1,2,3) ev(1,2) by simp_all
  have g1: "hashmap_may_get h1 [1] = Some (True, Some 11)" using h1(4) k1 ev(3) by simp
  have grow: "\<exists>hmap1. rehash half_full_table 16 = Some hmap1 \<and> alloc_size hmap1 = 16 \<and>
         size_n hmap1 = 4 \<and> hashmap_may_get hmap1 [1] = Some (True, Some 11)"
    using re g1 by blast
  have g: "hashmap_get h' [1] = Some 11" using r(4) k1 ne ev(3) by blast
  show ?thesis using i k5 k1 ne ev r(1) a16 grow g r(5) by blast
qed

text \<open>
  The claim C5 as stated fails on a table of capacity 8 that holds the three keys 1, 2
  and 3: setting the absent key 4 brings the logical count to 4, half of the capacity,
  and the capacity is still 8 afterwards.
\<close>

theorem set_growth_counterexample:
  "size_n (set_in (set_in (set_in (hashmap_create 8 1 False) [1] 11) [2] 12) [3] 13) = 3 \<and>
   alloc_size (set_in (set_in (set_in (hashmap_create 8 1 False) [1] 11) [2] 12) [3] 13) = 8 \<and>
   hashmap_has (set_in (set_in (set_in (hashmap_create 8 1 False) [1] 11) [2] 12) [3] 13) [4]
     = Some False \<and>
   map_option (size_n \<circ> snd)
     (hashmap_set (set_in (set_in (set_in (hashmap_create 8 1 False) [1] 11) [2] 12) [3] 13) [4] 14)
     = Some 4 \<and>
   map_option (alloc_size \<circ> snd)
     (hashmap_set (set_in (set_in (set_in (hashmap_create 8 1 False) [1] 11) [2] 12) [3] 13) [4] 14)
     = Some 8"
  by (simp add: eval_defs)

section \<open>The compaction loop of removal\<close>

lemma slot_ok_move:
  assumes ok: "slot_ok h i'" and rec: "slot h2 i = slot h i'"
    and sz: "alloc_size h2 = alloc_size h" "key_size h2 = key_size h"
    and flags: "\<And>q. q < alloc_size h \<Longrightarrow> filled (slot h2 q) = filled (slot h q)"
    and n0: "0 < alloc_size h"
    and le: "dist (alloc_size h) (desired_idx (slot h i')) i
               \<le> dist (alloc_size h) (desired_idx (slot h i')) i'"
  shows "slot_ok h2 i"
proof (cases "filled (slot h i')")
  case False
  then show ?thesis using rec by (simp add: slot_ok_def)
next
  case True
  let ?n = "alloc_size h"
  let ?d = "desired_idx (slot h i')"
  from ok True have pr: "probe_reaches h i'" and des: "?d = unat (hash (slot h i')) mod ?n"
    and ky: "case key (slot h i') of None \<Rightarrow> False
             | Some k \<Rightarrow> key_ok h k \<and> hash (slot h i') = hash_key h k"
    by (simp_all add: slot_ok_def)
  have pr2: "probe_reaches h2 i"
    unfolding probe_reaches_def
  proof (intro ballI)
    fix j assume "j \<in> {0..<dist (alloc_size h2) (desired_idx (slot h2 i)) i}"
    then have "j < dist ?n ?d i" using rec sz by simp
    then have "j < dist ?n ?d i'" using le by simp
    then have "filled (slot h ((?d + j) mod ?n))" using pr by (simp add: probe_reaches_def)
    moreover have "(?d + j) mod ?n < ?n" using n0 by simp
    ultimately show "filled (slot h2 ((desired_idx (slot h2 i) + j) mod alloc_size h2))"
      using flags rec sz by simp
  qed
  have ky2: "case key (slot h2 i) of None \<Rightarrow> False
             | Some k \<Rightarrow> key_ok h2 k \<and> hash (slot h2 i) = hash_key h2 k"
    using ky rec key_size_cong(2,3)[OF sz(2)] by (simp split: option.splits)
  show ?thesis
    unfolding slot_ok_def using pr2 ky2 des rec sz by simp
qed

lemma compact_keep:
  assumes fr: "compact_frame h0 r h hole" and wk: "compact_walk h index hole"
    and f: "filled (slot h (Suc index mod alloc_size h))"
    and ne: "Suc index mod alloc_size h \<noteq> hole"
    and nf: "\<not> filter_up (desired_idx (slot h (Suc index mod alloc_size h)))
                (Suc index mod alloc_size h) hole"
  shows "compact_walk h (Suc index mod alloc_size h) hole"
proof -
  let ?n = "alloc_size h"
  let ?x = "Suc index mod ?n"
  from fr have hl: "hole < ?n"
    and ok: "\<And>i. i < ?n \<Longrightarrow> i \<noteq> hole \<Longrightarrow> slot_ok h i"
    unfolding compact_frame_def by simp_all
  from wk have ix: "index < ?n"
    and reg: "\<And>j. j \<le> dist ?n hole index \<Longrightarrow> filled (slot h ((hole + j) mod ?n))"
    and av: "\<And>i. i < ?n \<Longrightarrow> i \<noteq> hole \<Longrightarrow> filled (slot h i) \<Longrightarrow> 0 < dist ?n hole i \<Longrightarrow>
                dist ?n hole i \<le> dist ?n hole index \<Longrightarrow>
                \<not> dist ?n (desired_idx (slot h i)) hole < dist ?n (desired_idx (slot h i)) i"
    unfolding compact_walk_def by blast+
  have x: "?x < ?n" using ix by simp
  have dx: "dist ?n hole ?x = Suc (dist ?n hole index)" using hl ix ne by (rule dist_succ)
  have reg': "filled (slot h ((hole + j) mod ?n))" if "j \<le> dist ?n hole ?x" for j
  proof (cases "j \<le> dist ?n hole index")
    case True
    then show ?thesis by (rule reg)
  next
    case False
    with that dx have "j = dist ?n hole ?x" by simp
    then have "(hole + j) mod ?n = ?x" using dist_reach[OF hl x] by simp
    then show ?thesis using f by simp
  qed
  have av': "\<not> dist ?n (desired_idx (slot h i)) hole < dist ?n (desired_idx (slot h i)) i"
    if i: "i < ?n" "i \<noteq> hole" "filled (slot h i)" "0 < dist ?n hole i"
      "dist ?n hole i \<le> dist ?n hole ?x" for i
  proof (cases "i = ?x")
    case True
    from ok[OF x ne] f have "desired_idx (slot h ?x) = unat (hash (slot h ?x)) mod ?n"
      by (simp add: slot_ok_def)
    then have d: "desired_idx (slot h ?x) < ?n" using ix by simp
    have "hole \<noteq> ?x" using ne by blast
    from filter_up_dist[OF d x hl this] nf True show ?thesis by blast
  next
    case False
    have "dist ?n hole i \<noteq> dist ?n hole ?x" using dist_inj[OF hl i(1) x] False by blast
    with i(5) dx have "dist ?n hole i \<le> dist ?n hole index" by simp
    with av[OF i(1,2,3,4)] show ?thesis by simp
  qed
  show ?thesis
    unfolding compact_walk_def using x reg' av' by blast
qed

lemma in_slots:
  "i < n \<Longrightarrow> i \<noteq> hole \<Longrightarrow> filled (slot h i) \<Longrightarrow> b = slot h i \<Longrightarrow>
     b \<in> {slot h i | i. i < n \<and> i \<noteq> hole \<and> filled (slot h i)}"
  by blast

lemma compact_move:
  assumes fr: "compact_frame h0 r h hole" and wk: "compact_walk h index hole"
    and x: "x < alloc_size h" and f: "filled (slot h x)" and ne: "x \<noteq> hole"
    and fu: "filter_up (desired_idx (slot h x)) x hole"
  shows "compact_frame h0 r (h\<lparr>buckets := (buckets h)[hole := slot h x]\<rparr>) x"
    and "compact_walk (h\<lparr>buckets := (buckets h)[hole := slot h x]\<rparr>) x x"
proof -
  let ?n = "alloc_size h"
  let ?h2 = "h\<lparr>buckets := (buckets h)[hole := slot h x]\<rparr>"
  from fr have as: "alloc_size h = alloc_size h0" and len: "length (buckets h) = alloc_size h0"
    and misc: "key_size h = key_size h0" "size_n h = size_n h0" "min_size h = min_size h0"
      "copy_keys h = copy_keys h0"
    and hl: "hole < ?n" and r: "r < alloc_size h0" and fh: "filled (slot h hole)"
    and flags: "\<And>i. i < ?n \<Longrightarrow> filled (slot h i) = filled (slot h0 i)"
    and ok: "\<And>i. i < ?n \<Longrightarrow> i \<noteq> hole \<Longrightarrow> slot_ok h i"
    and dis: "\<And>i j ki. i < ?n \<Longrightarrow> j < ?n \<Longrightarrow> i \<noteq> j \<Longrightarrow> i \<noteq> hole \<Longrightarrow> j \<noteq> hole \<Longrightarrow>
                filled (slot h i) \<Longrightarrow> key (slot h i) = Some ki \<Longrightarrow> \<not> slot_holds h ki (slot h j)"
    and cont: "{slot h i | i. i < alloc_size h0 \<and> i \<noteq> hole \<and> filled (slot h i)} =
      {slot h0 i | i. i < alloc_size h0 \<and> i \<noteq> r \<and> filled (slot h0 i)}"
    unfolding compact_frame_def by (simp_all, force)
  have n0: "0 < ?n" using x by simp
  have s_hole: "slot ?h2 hole = slot h x" using hl len as by simp
  have s_oth: "\<And>q. q \<noteq> hole \<Longrightarrow> slot ?h2 q = slot h q" by simp
  have flags2: "filled (slot ?h2 q) = filled (slot h q)" if "q < ?n" for q
    using s_hole s_oth[of q] f fh by (cases "q = hole") simp_all
  from ok[OF x ne] f have "desired_idx (slot h x) = unat (hash (slot h x)) mod ?n"
    by (simp add: slot_ok_def)
  then have d: "desired_idx (slot h x) < ?n" using n0 by simp
  have "hole \<noteq> x" using ne by blast
  from filter_up_dist[OF d x hl this] fu
  have lt: "dist ?n (desired_idx (slot h x)) hole < dist ?n (desired_idx (slot h x)) x" by blast
  have c10: "\<forall>i<alloc_size h0. filled (slot ?h2 i) = filled (slot h0 i)"
    using flags2 flags as by simp
  have c11: "\<forall>i<alloc_size h0. i \<noteq> x \<longrightarrow> slot_ok ?h2 i"
  proof (intro allI impI)
    fix i assume i: "i < alloc_size h0" "i \<noteq> x"
    show "slot_ok ?h2 i"
    proof (cases "i = hole")
      case True
      show ?thesis
      proof (rule slot_ok_move[of h x])
        show "slot_ok h x" by (rule ok[OF x ne])
        show "slot ?h2 i = slot h x" using True s_hole by simp
        show "dist ?n (desired_idx (slot h x)) i \<le> dist ?n (desired_idx (slot h x)) x"
          using lt True by simp
      qed (use flags2 n0 in simp_all)
    next
      case False
      show ?thesis
      proof (rule slot_ok_move[of h i])
        show "slot_ok h i" using ok i(1) False as by simp
        show "slot ?h2 i = slot h i" using False s_oth by simp
      qed (use flags2 n0 in simp_all)
    qed
  qed
  have c12: "\<forall>i<alloc_size h0. \<forall>j<alloc_size h0.
           i \<noteq> j \<and> i \<noteq> x \<and> j \<noteq> x \<and> filled (slot ?h2 i) \<longrightarrow>
           (case key (slot ?h2 i) of
              None \<Rightarrow> True
            | Some k \<Rightarrow> \<not> slot_holds ?h2 k (slot ?h2 j))"
  proof (intro allI impI)
    fix i j assume i: "i < alloc_size h0" and j: "j < alloc_size h0"
      and a: "i \<noteq> j \<and> i \<noteq> x \<and> j \<noteq> x \<and> filled (slot ?h2 i)"
    define oi where "oi = (if i = hole then x else i)"
    define oj where "oj = (if j = hole then x else j)"
    have o: "oi < ?n" "oj < ?n" "oi \<noteq> oj" "oi \<noteq> hole" "oj \<noteq> hole"
      using i j a x ne as by (auto simp: oi_def oj_def)
    have si: "slot ?h2 i = slot h oi" using s_hole s_oth by (simp add: oi_def)
    have sj: "slot ?h2 j = slot h oj" using s_hole s_oth by (simp add: oj_def)
    have fo: "filled (slot h oi)" using a si by simp
    have "\<not> slot_holds h ki (slot h oj)" if "key (slot h oi) = Some ki" for ki
      using dis[OF o fo that] .
    then show "case key (slot ?h2 i) of None \<Rightarrow> True
            | Some k \<Rightarrow> \<not> slot_holds ?h2 k (slot ?h2 j)"
      unfolding si sj by (simp split: option.splits)
  qed
  have c13: "{slot ?h2 i | i. i < alloc_size h0 \<and> i \<noteq> x \<and> filled (slot ?h2 i)} =
      {slot h0 i | i. i < alloc_size h0 \<and> i \<noteq> r \<and> filled (slot h0 i)}"
  proof -
    have "{slot ?h2 i | i. i < alloc_size h0 \<and> i \<noteq> x \<and> filled (slot ?h2 i)} =
          {slot h i | i. i < alloc_size h0 \<and> i \<noteq> hole \<and> filled (slot h i)}"
      (is "?L = ?R")
    proof (intro set_eqI iffI)
      fix b assume "b \<in> ?L"
      then obtain i where i: "b = slot ?h2 i" "i < alloc_size h0" "i \<noteq> x" "filled (slot ?h2 i)"
        by blast
      show "b \<in> ?R"
      proof (cases "i = hole")
        case True
        then have "b = slot h x" using i(1) s_hole by simp
        moreover have "x < alloc_size h0" using x as by simp
        ultimately show ?thesis using ne f by (intro in_slots[of x]) simp_all
      next
        case False
        then have "b = slot h i" "filled (slot h i)" using i s_oth by simp_all
        then show ?thesis using i(2) False by (intro in_slots[of i]) simp_all
      qed
    next
      fix b assume "b \<in> ?R"
      then obtain i where i: "b = slot h i" "i < alloc_size h0" "i \<noteq> hole" "filled (slot h i)"
        by blast
      show "b \<in> ?L"
      proof (cases "i = x")
        case True
        then have "b = slot ?h2 hole" "filled (slot ?h2 hole)" using i s_hole by simp_all
        moreover have "hole < alloc_size h0" "hole \<noteq> x" using hl as ne by auto
        ultimately show ?thesis by (intro in_slots[of hole]) simp_all
      next
        case False
        have "b = slot ?h2 i" "filled (slot ?h2 i)" using i s_oth[OF i(3)] by simp_all
        then show ?thesis using i(2) False by (intro in_slots[of i]) simp_all
      qed
    qed
    then show ?thesis using cont by simp
  qed
  have c9: "filled (slot ?h2 x)" using flags2[OF x] f by simp
  show "compact_frame h0 r ?h2 x"
    unfolding compact_frame_def
    using as len misc x r c9 c10 c11 c12 c13 by simp
  have dxx: "dist ?n x x = 0" using x by (rule dist_self)
  have w2: "\<forall>j\<le>dist (alloc_size ?h2) x x. filled (slot ?h2 ((x + j) mod alloc_size ?h2))"
    using dxx x c9 by simp
  have w3: "\<forall>i<alloc_size ?h2. i \<noteq> x \<and> filled (slot ?h2 i) \<and>
           0 < dist (alloc_size ?h2) x i \<and>
           dist (alloc_size ?h2) x i \<le> dist (alloc_size ?h2) x x \<longrightarrow>
           \<not> dist (alloc_size ?h2) (desired_idx (slot ?h2 i)) x
               < dist (alloc_size ?h2) (desired_idx (slot ?h2 i)) i"
  proof (intro allI impI)
    fix i assume "i \<noteq> x \<and> filled (slot ?h2 i) \<and>
           0 < dist (alloc_size ?h2) x i \<and>
           dist (alloc_size ?h2) x i \<le> dist (alloc_size ?h2) x x"
    then have "0 < dist ?n x i" "dist ?n x i \<le> dist ?n x x" by simp_all
    with dxx have False by simp
    then show "\<not> dist (alloc_size ?h2) (desired_idx (slot ?h2 i)) x
               < dist (alloc_size ?h2) (desired_idx (slot ?h2 i)) i" ..
  qed
  have w1: "x < alloc_size ?h2" using x by simp
  show "compact_walk ?h2 x x"
    unfolding compact_walk_def using w1 w2 w3 by blast
qed

lemma filter_count_flags:
  assumes "length xs = length ys" and "\<And>i. i < length xs \<Longrightarrow> P (xs ! i) = P (ys ! i)"
  shows "length (filter P xs) = length (filter P ys)"
proof -
  have "{i. i < length xs \<and> P (xs ! i)} = {i. i < length ys \<and> P (ys ! i)}"
    using assms by auto
  then show ?thesis by (simp add: length_filter_conv_card)
qed

lemma remove_loop_run:
  assumes fr: "compact_frame h0 r h hole" and wk: "compact_walk h index hole"
    and run: "\<And>j. 1 \<le> j \<Longrightarrow> j \<le> m \<Longrightarrow> filled (slot h ((index + j) mod alloc_size h))"
    and stop: "\<not> filled (slot h ((index + Suc m) mod alloc_size h))"
  shows "\<exists>h' index' hole'. remove_loop h index hole = Some (h', hole') \<and>
           compact_frame h0 r h' hole' \<and> compact_walk h' index' hole' \<and>
           \<not> filled (slot h' (Suc index' mod alloc_size h'))"
  using fr wk run stop
proof (induction m arbitrary: h index hole)
  case 0
  have "remove_loop h index hole = Some (h, hole)"
    using 0(4) by (subst remove_loop.simps) simp
  then show ?case using 0(1,2,4) by auto
next
  case (Suc m)
  let ?n = "alloc_size h"
  let ?x = "Suc index mod ?n"
  from Suc(3) have ix: "index < ?n" by (simp add: compact_walk_def)
  then have x: "?x < ?n" by simp
  from Suc(2) have hl: "hole < ?n" and as: "alloc_size h = alloc_size h0"
    by (simp_all add: compact_frame_def)
  have fx: "filled (slot h ?x)" using Suc(4)[of 1] by simp
  have ne: "?x \<noteq> hole"
  proof
    assume eq: "?x = hole"
    let ?e = "(index + Suc (Suc m)) mod ?n"
    have e: "?e < ?n" using ix by simp
    have "dist ?n hole ?e \<le> dist ?n hole index"
    proof -
      have "dist ?n ?x index = ?n - 1" using ix by (auto simp: dist_if mod_if)
      moreover have "dist ?n hole ?e < ?n" using hl e by (rule dist_less)
      ultimately show ?thesis using eq by simp
    qed
    with Suc(3) have "filled (slot h ((hole + dist ?n hole ?e) mod ?n))"
      by (simp add: compact_walk_def)
    then have "filled (slot h ?e)" using dist_reach[OF hl e] by simp
    with Suc(5) show False by simp
  qed
  have run': "filled (slot h ((?x + j) mod ?n))" if "1 \<le> j" "j \<le> m" for j
  proof -
    have "(?x + j) mod ?n = Suc (index + j) mod ?n" by (rule mod_succ_add)
    then show ?thesis using Suc(4)[of "Suc j"] that by simp
  qed
  have stop': "\<not> filled (slot h ((?x + Suc m) mod ?n))"
  proof -
    have "(?x + Suc m) mod ?n = Suc (index + Suc m) mod ?n" by (rule mod_succ_add)
    then show ?thesis using Suc(5) by simp
  qed
  show ?case
  proof (cases "filter_up (desired_idx (slot h ?x)) ?x hole")
    case True
    let ?h2 = "h\<lparr>buckets := (buckets h)[hole := slot h ?x]\<rparr>"
    note mv = compact_move[OF Suc(2,3) x fx ne True]
    from mv(1) have fl: "\<And>i. i < ?n \<Longrightarrow> filled (slot ?h2 i) = filled (slot h0 i)"
      using as by (simp add: compact_frame_def)
    from Suc(2) have fl0: "\<And>i. i < ?n \<Longrightarrow> filled (slot h i) = filled (slot h0 i)"
      using as by (simp add: compact_frame_def)
    have same: "\<And>i. i < ?n \<Longrightarrow> filled (slot ?h2 i) = filled (slot h i)"
      using fl fl0 by simp
    have "\<exists>h' index' hole'. remove_loop ?h2 ?x ?x = Some (h', hole') \<and>
           compact_frame h0 r h' hole' \<and> compact_walk h' index' hole' \<and>
           \<not> filled (slot h' (Suc index' mod alloc_size h'))"
    proof (rule Suc(1)[OF mv])
      fix j assume "1 \<le> j" "j \<le> m"
      from run'[OF this] show "filled (slot ?h2 ((?x + j) mod alloc_size ?h2))"
        using same[of "(?x + j) mod ?n"] x by simp
    next
      show "\<not> filled (slot ?h2 ((?x + Suc m) mod alloc_size ?h2))"
        using stop' same[of "(?x + Suc m) mod ?n"] x by simp
    qed
    moreover have "remove_loop h index hole = remove_loop ?h2 ?x ?x"
      using fx True by (subst remove_loop.simps) simp
    ultimately show ?thesis by simp
  next
    case False
    note kp = compact_keep[OF Suc(2,3) fx ne False]
    have "\<exists>h' index' hole'. remove_loop h ?x hole = Some (h', hole') \<and>
           compact_frame h0 r h' hole' \<and> compact_walk h' index' hole' \<and>
           \<not> filled (slot h' (Suc index' mod alloc_size h'))"
      using Suc(1)[OF Suc(2) kp] run' stop' by blast
    moreover have "remove_loop h index hole = remove_loop h ?x hole"
      using fx False by (subst remove_loop.simps) simp
    ultimately show ?thesis by simp
  qed
qed

lemma probe_reachesD:
  "probe_reaches h i \<Longrightarrow> j < dist (alloc_size h) (desired_idx (slot h i)) i \<Longrightarrow>
     filled (slot h ((desired_idx (slot h i) + j) mod alloc_size h))"
  by (simp add: probe_reaches_def)

lemma compact_final:
  assumes fr: "compact_frame h0 r h hole" and wk: "compact_walk h index hole"
    and stop: "\<not> filled (slot h (Suc index mod alloc_size h))"
    and inv0: "chain_inv h0" and fr0: "filled (slot h0 r)"
  shows "chain_inv (h\<lparr>buckets := (buckets h)[hole := (slot h hole)\<lparr>filled := False\<rparr>],
                    size_n := size_dec (size_n h)\<rparr>)"
    and "size_dec (size_n h) = size_n h0 - 1" and "0 < size_n h0"
    and "has_entry (h\<lparr>buckets := (buckets h)[hole := (slot h hole)\<lparr>filled := False\<rparr>],
                    size_n := size_dec (size_n h)\<rparr>) k2 v2 \<longleftrightarrow>
         (\<exists>i<alloc_size h0. i \<noteq> r \<and> slot_holds h0 k2 (slot h0 i) \<and> val (slot h0 i) = v2)"
proof -
  let ?n = "alloc_size h"
  let ?hF = "h\<lparr>buckets := (buckets h)[hole := (slot h hole)\<lparr>filled := False\<rparr>],
                    size_n := size_dec (size_n h)\<rparr>"
  from fr have as: "alloc_size h = alloc_size h0" and len: "length (buckets h) = alloc_size h0"
    and ks: "key_size h = key_size h0" and sz: "size_n h = size_n h0"
    and hl: "hole < ?n" and r: "r < alloc_size h0" and fh: "filled (slot h hole)"
    and flags: "\<And>i. i < ?n \<Longrightarrow> filled (slot h i) = filled (slot h0 i)"
    and ok: "\<And>i. i < ?n \<Longrightarrow> i \<noteq> hole \<Longrightarrow> slot_ok h i"
    and dis: "\<And>i j ki. i < ?n \<Longrightarrow> j < ?n \<Longrightarrow> i \<noteq> j \<Longrightarrow> i \<noteq> hole \<Longrightarrow> j \<noteq> hole \<Longrightarrow>
                filled (slot h i) \<Longrightarrow> key (slot h i) = Some ki \<Longrightarrow> \<not> slot_holds h ki (slot h j)"
    and cont: "{slot h i | i. i < alloc_size h0 \<and> i \<noteq> hole \<and> filled (slot h i)} =
      {slot h0 i | i. i < alloc_size h0 \<and> i \<noteq> r \<and> filled (slot h0 i)}"
    unfolding compact_frame_def by (simp_all, force)
  from wk have ix: "index < ?n"
    and av: "\<And>i. i < ?n \<Longrightarrow> i \<noteq> hole \<Longrightarrow> filled (slot h i) \<Longrightarrow> 0 < dist ?n hole i \<Longrightarrow>
                dist ?n hole i \<le> dist ?n hole index \<Longrightarrow>
                \<not> dist ?n (desired_idx (slot h i)) hole < dist ?n (desired_idx (slot h i)) i"
    unfolding compact_walk_def by blast+
  from inv0 have len0: "length (buckets h0) = alloc_size h0"
    and cnt0: "size_n h0 = length (filter filled (buckets h0))" by (simp_all add: chain_inv_def)
  have n0: "0 < ?n" using hl by simp
  let ?e = "Suc index mod ?n"
  have e: "?e < ?n" using n0 by simp
  have s_hole: "slot ?hF hole = (slot h hole)\<lparr>filled := False\<rparr>" using hl len as by simp
  have s_oth: "\<And>q. q \<noteq> hole \<Longrightarrow> slot ?hF q = slot h q" by simp
  have "slot h0 r \<in> set (filter filled (buckets h0))" using fr0 r len0 by simp
  then have "filter filled (buckets h0) \<noteq> []" by force
  then show pos: "0 < size_n h0" using cnt0 by simp
  then show dec: "size_dec (size_n h) = size_n h0 - 1" using sz by (simp add: size_dec_def)
  have c2: "size_n ?hF = length (filter filled (buckets ?hF))"
  proof -
    have "hole < length (buckets h)" using hl len as by simp
    from filter_update_count[OF this, of filled "(slot h hole)\<lparr>filled := False\<rparr>"] fh
    have "length (filter filled (buckets ?hF)) + 1 = length (filter filled (buckets h))" by simp
    moreover have "length (filter filled (buckets h)) = length (filter filled (buckets h0))"
      using len len0 flags as by (intro filter_count_flags) simp_all
    ultimately show ?thesis using cnt0 dec by simp
  qed
  have reach: "probe_reaches ?hF i" if i: "i < ?n" "i \<noteq> hole" "filled (slot h i)" for i
    unfolding probe_reaches_def
  proof (intro ballI)
    let ?d = "desired_idx (slot h i)"
    fix j assume "j \<in> {0..<dist (alloc_size ?hF) (desired_idx (slot ?hF i)) i}"
    then have j: "j < dist ?n ?d i" using s_oth[OF i(2)] by simp
    from ok[OF i(1,2)] i(3) have pr: "probe_reaches h i"
      and "?d = unat (hash (slot h i)) mod ?n" by (simp_all add: slot_ok_def)
    then have d: "?d < ?n" using n0 by simp
    have jn: "j < ?n" using j dist_less[OF d i(1)] by simp
    let ?q = "(?d + j) mod ?n"
    have fq: "filled (slot h ?q)" using pr j by (simp add: probe_reaches_def)
    have "?q \<noteq> hole"
    proof
      assume q: "?q = hole"
      have "dist ?n ?d hole = j" using dist_add[OF d jn] q by simp
      with j have lt: "dist ?n ?d hole < dist ?n ?d i" by simp
      have tpos: "0 < dist ?n hole i" using dist_zero[OF hl i(1)] i(2) by auto
      show False
      proof (cases "dist ?n hole i \<le> dist ?n hole index")
        case True
        from av[OF i tpos True] lt show False by contradiction
      next
        case False
        have eh: "?e \<noteq> hole" using stop fh by auto
        have de: "dist ?n hole ?e = Suc (dist ?n hole index)" using hl ix eh by (rule dist_succ)
        have "?e \<noteq> i" using stop i(3) by auto
        then have "dist ?n hole i \<noteq> dist ?n hole ?e" using dist_inj[OF hl i(1) e] by blast
        with False de have big: "Suc (dist ?n hole index) < dist ?n hole i" by simp
        have "dist ?n ?d i = dist ?n ?d hole + dist ?n hole i" using d hl i(1) lt by (rule dist_split)
        with big \<open>dist ?n ?d hole = j\<close>
        have "j + Suc (dist ?n hole index) < dist ?n ?d i" by simp
        with pr have "filled (slot h ((?d + (j + Suc (dist ?n hole index))) mod ?n))"
          by (rule probe_reachesD)
        moreover have "(?d + (j + Suc (dist ?n hole index))) mod ?n = ?e"
        proof -
          have "(?d + (j + Suc (dist ?n hole index))) mod ?n
                  = ((?d + j) + Suc (dist ?n hole index)) mod ?n"
            by (simp only: add.assoc)
          also have "\<dots> = (?q + Suc (dist ?n hole index)) mod ?n"
            by (rule mod_add_left_eq[symmetric])
          also have "\<dots> = (hole + dist ?n hole ?e) mod ?n" using q de by simp
          also have "\<dots> = ?e" using hl e by (rule dist_reach)
          finally show ?thesis .
        qed
        ultimately show False using stop by simp
      qed
    qed
    then show "filled (slot ?hF ((desired_idx (slot ?hF i) + j) mod alloc_size ?hF))"
      using fq s_oth[OF i(2)] by simp
  qed
  have c3: "\<forall>i\<in>{0..<alloc_size ?hF}. slot_ok ?hF i"
  proof (intro ballI)
    fix i assume "i \<in> {0..<alloc_size ?hF}"
    then have i: "i < ?n" by simp
    show "slot_ok ?hF i"
    proof (cases "i = hole")
      case True
      then show ?thesis using s_hole by (simp add: slot_ok_def)
    next
      case False
      show ?thesis
      proof (cases "filled (slot h i)")
        case f: True
        from ok[OF i False] f have "case key (slot h i) of None \<Rightarrow> False
             | Some k \<Rightarrow> key_ok h k \<and> hash (slot h i) = hash_key h k"
          and "desired_idx (slot h i) = unat (hash (slot h i)) mod ?n" by (simp_all add: slot_ok_def)
        then show ?thesis
          unfolding slot_ok_def using reach[OF i False f] s_oth[OF False]
          by (simp split: option.splits)
      next
        case False
        then show ?thesis using s_oth[OF \<open>i \<noteq> hole\<close>] by (simp add: slot_ok_def)
      qed
    qed
  qed
  have c4: "keys_distinct ?hF"
    unfolding keys_distinct_def
  proof (intro ballI impI)
    fix i j assume "i \<in> {0..<alloc_size ?hF}" "j \<in> {0..<alloc_size ?hF}"
      and a: "i \<noteq> j \<and> filled (slot ?hF i)"
    then have i: "i < ?n" and j: "j < ?n" by simp_all
    have ih: "i \<noteq> hole" using a s_hole by auto
    then have si: "slot ?hF i = slot h i" by simp
    have "\<not> slot_holds h ki (slot ?hF j)" if ki: "key (slot h i) = Some ki" for ki
    proof (cases "j = hole")
      case True
      then show ?thesis using s_hole by (simp add: slot_holds_def)
    next
      case False
      from dis[OF i j _ ih False _ ki] a si show ?thesis using s_oth[OF False] by simp
    qed
    then show "case key (slot ?hF i) of None \<Rightarrow> True
          | Some k \<Rightarrow> \<not> slot_holds ?hF k (slot ?hF j)"
      unfolding si by (simp split: option.splits)
  qed
  show "chain_inv ?hF"
    unfolding chain_inv_def using c2 c3 c4 len as by simp
  have sh: "slot_holds ?hF = slot_holds h0" by (rule slot_holds_cong) (simp add: ks)
  have "has_entry ?hF k2 v2 \<longleftrightarrow>
          (\<exists>b\<in>{slot h i | i. i < alloc_size h0 \<and> i \<noteq> hole \<and> filled (slot h i)}.
              slot_holds h0 k2 b \<and> val b = v2)"
    (is "?L \<longleftrightarrow> ?M")
  proof
    assume ?L
    then obtain i where i: "i < ?n" "slot_holds h0 k2 (slot ?hF i)" "val (slot ?hF i) = v2"
      unfolding has_entry_def sh by auto
    have ih: "i \<noteq> hole" using i(2) s_hole by (auto simp: slot_holds_def)
    then have "slot ?hF i = slot h i" by simp
    with i have "slot_holds h0 k2 (slot h i)" "val (slot h i) = v2" "filled (slot h i)"
      by (simp_all add: slot_holds_def)
    moreover have "slot h i \<in> {slot h i | i. i < alloc_size h0 \<and> i \<noteq> hole \<and> filled (slot h i)}"
      using i(1) ih \<open>filled (slot h i)\<close> as by (intro in_slots[of i]) simp_all
    ultimately show ?M by blast
  next
    assume ?M
    then obtain i where i: "i < alloc_size h0" "i \<noteq> hole" "filled (slot h i)"
      "slot_holds h0 k2 (slot h i)" "val (slot h i) = v2" by blast
    then have "slot_holds ?hF k2 (slot ?hF i) \<and> val (slot ?hF i) = v2"
      using s_oth[OF i(2)] sh by simp
    then show ?L unfolding has_entry_def using i(1) as by (intro bexI[of _ i]) simp_all
  qed
  also have "\<dots> \<longleftrightarrow> (\<exists>b\<in>{slot h0 i | i. i < alloc_size h0 \<and> i \<noteq> r \<and> filled (slot h0 i)}.
              slot_holds h0 k2 b \<and> val b = v2)"
    using cont by simp
  also have "\<dots> \<longleftrightarrow>
     (\<exists>i<alloc_size h0. i \<noteq> r \<and> slot_holds h0 k2 (slot h0 i) \<and> val (slot h0 i) = v2)"
    by (auto simp: slot_holds_def)
  finally show "has_entry ?hF k2 v2 \<longleftrightarrow>
         (\<exists>i<alloc_size h0. i \<noteq> r \<and> slot_holds h0 k2 (slot h0 i) \<and> val (slot h0 i) = v2)" .
qed

lemma compact_start:
  assumes inv: "chain_inv h" and r: "r < alloc_size h" and f: "filled (slot h r)"
  shows "compact_frame h r h r" and "compact_walk h r r"
proof -
  let ?n = "alloc_size h"
  from inv have len: "length (buckets h) = ?n"
    and ok: "\<forall>i<?n. i \<noteq> r \<longrightarrow> slot_ok h i"
    by (simp_all add: chain_inv_def)
  have dis: "\<forall>i<?n. \<forall>j<?n. i \<noteq> j \<and> i \<noteq> r \<and> j \<noteq> r \<and> filled (slot h i) \<longrightarrow>
           (case key (slot h i) of None \<Rightarrow> True | Some k \<Rightarrow> \<not> slot_holds h k (slot h j))"
    using inv unfolding chain_inv_def keys_distinct_def by simp
  show "compact_frame h r h r"
    unfolding compact_frame_def using len r f ok dis by simp
  have dxx: "dist ?n r r = 0" using r by (rule dist_self)
  have w2: "\<forall>j\<le>dist ?n r r. filled (slot h ((r + j) mod ?n))" using dxx r f by simp
  have w3: "\<forall>i<?n. i \<noteq> r \<and> filled (slot h i) \<and> 0 < dist ?n r i \<and> dist ?n r i \<le> dist ?n r r \<longrightarrow>
           \<not> dist ?n (desired_idx (slot h i)) r < dist ?n (desired_idx (slot h i)) i"
    using dxx by auto
  show "compact_walk h r r"
    unfolding compact_walk_def using r w2 w3 by blast
qed

lemma run_to_empty:
  assumes r: "r < alloc_size h" and f: "filled (slot h r)"
    and e0: "e0 < alloc_size h" "\<not> filled (slot h e0)"
  shows "\<exists>m. (\<forall>j. 1 \<le> j \<longrightarrow> j \<le> m \<longrightarrow> filled (slot h ((r + j) mod alloc_size h))) \<and>
             \<not> filled (slot h ((r + Suc m) mod alloc_size h))"
proof -
  let ?n = "alloc_size h"
  define Q where "Q j \<longleftrightarrow> \<not> filled (slot h ((r + j) mod ?n))" for j
  have Qe: "Q (dist ?n r e0)" using e0 dist_reach[OF r e0(1)] by (simp add: Q_def)
  define m' where "m' = (LEAST j. Q j)"
  have Qm: "Q m'" unfolding m'_def using Qe by (rule LeastI)
  have less: "\<And>j. j < m' \<Longrightarrow> \<not> Q j" unfolding m'_def by (rule not_less_Least)
  have "\<not> Q 0" using f r by (simp add: Q_def)
  with Qm have "m' \<noteq> 0" by (metis)
  then obtain m where m: "m' = Suc m" by (cases m') auto
  have "\<forall>j. 1 \<le> j \<longrightarrow> j \<le> m \<longrightarrow> filled (slot h ((r + j) mod ?n))"
    using less m by (auto simp: Q_def)
  moreover have "\<not> filled (slot h ((r + Suc m) mod ?n))" using Qm m by (simp add: Q_def)
  ultimately show ?thesis by blast
qed

lemma remove_absent:
  assumes inv: "chain_inv h" and room: "size_n h < alloc_size h" and no: "\<not> has_key h k"
  shows "hashmap_remove h k = Some (NULL, h)"
proof -
  from lookup_no_key(4)[OF inv room no] obtain e where
    "get_bucket_index h k (hash_key h k) = Some e" "\<not> filled (slot h e)" by blast
  then show ?thesis by (simp add: hashmap_remove_def)
qed

lemma remove_compacts:
  assumes inv: "chain_inv h" and k: "key_ok h k" and room: "size_n h < alloc_size h"
    and r: "r < alloc_size h" "slot_holds h k (slot h r)"
  shows "\<exists>h2. hashmap_remove h k =
            (case (if size_n h2 < alloc_size h2 div 4 then rehash h2 (alloc_size h2 div 2)
                   else Some h2) of
               None \<Rightarrow> None | Some h3 \<Rightarrow> Some (val (slot h r), h3)) \<and>
           chain_inv h2 \<and> alloc_size h2 = alloc_size h \<and> min_size h2 = min_size h \<and>
           key_size h2 = key_size h \<and> copy_keys h2 = copy_keys h \<and>
           size_n h2 = size_n h - 1 \<and> 0 < size_n h \<and>
           (\<forall>k2 v2. key_ok h k2 \<longrightarrow>
              (has_entry h2 k2 v2 \<longleftrightarrow> \<not> key_equals h k2 k \<and> has_entry h k2 v2))"
proof -
  let ?n = "alloc_size h"
  from r(2) have f: "filled (slot h r)" by (simp add: slot_holds_def)
  from holds_key_ok[OF inv r] obtain kr where kr: "key (slot h r) = Some kr" "key_ok h kr"
    "key_equals h k kr" by blast
  note st = compact_start[OF inv r(1) f]
  from room_empty_slot[OF inv room] obtain e0 where e0: "e0 < ?n" "\<not> filled (slot h e0)"
    by blast
  from run_to_empty[OF r(1) f e0] obtain m where
    m: "\<And>j. 1 \<le> j \<Longrightarrow> j \<le> m \<Longrightarrow> filled (slot h ((r + j) mod ?n))"
      "\<not> filled (slot h ((r + Suc m) mod ?n))" by blast
  from remove_loop_run[OF st m] obtain h1 index' hole' where h1:
    "remove_loop h r r = Some (h1, hole')" "compact_frame h r h1 hole'"
    "compact_walk h1 index' hole'" "\<not> filled (slot h1 (Suc index' mod alloc_size h1))"
    by blast
  define h2 where "h2 = h1\<lparr>buckets := (buckets h1)[hole' := (slot h1 hole')\<lparr>filled := False\<rparr>],
                    size_n := size_dec (size_n h1)\<rparr>"
  note fin = compact_final[OF h1(2,3,4) inv f, folded h2_def]
  from h1(2) have fr: "alloc_size h1 = ?n" "min_size h1 = min_size h" "key_size h1 = key_size h"
    "copy_keys h1 = copy_keys h" by (simp_all add: compact_frame_def)
  have res: "hashmap_remove h k =
            (case (if size_n h2 < alloc_size h2 div 4 then rehash h2 (alloc_size h2 div 2)
                   else Some h2) of
               None \<Rightarrow> None | Some h3 \<Rightarrow> Some (val (slot h r), h3))"
    using lookup_present[OF inv k r] f h1(1)
    by (simp add: hashmap_remove_def Let_def h2_def)
  have ent: "has_entry h2 k2 v2 \<longleftrightarrow> \<not> key_equals h k2 k \<and> has_entry h k2 v2"
    if k2: "key_ok h k2" for k2 v2
  proof (cases "key_equals h k2 k")
    case True
    then have "key_equals h k2 kr" using key_equals_trans[OF k2 k kr(2)] kr(3) by simp
    then have hr: "slot_holds h k2 (slot h r)" using f kr(1) by (simp add: slot_holds_def)
    have "\<not> (\<exists>i<?n. i \<noteq> r \<and> slot_holds h k2 (slot h i) \<and> val (slot h i) = v2)"
      using holds_unique[OF inv k2 _ _ r(1) hr] by blast
    then show ?thesis using fin(4)[of k2 v2] True by simp
  next
    case False
    have "\<not> slot_holds h k2 (slot h r)"
    proof
      assume "slot_holds h k2 (slot h r)"
      then have "key_equals h k2 kr" using kr(1) by (simp add: slot_holds_def)
      moreover have "key_equals h kr k" using key_equals_sym[OF k kr(2,3)] .
      ultimately have "key_equals h k2 k" using key_equals_trans[OF k2 kr(2) k] by simp
      with False show False by contradiction
    qed
    then have "(\<exists>i<?n. i \<noteq> r \<and> slot_holds h k2 (slot h i) \<and> val (slot h i) = v2) \<longleftrightarrow>
               has_entry h k2 v2"
      unfolding has_entry_def by auto
    then show ?thesis using fin(4)[of k2 v2] False by simp
  qed
  have "size_n h2 = size_n h - 1" using fin(2) by (simp add: h2_def)
  moreover have "alloc_size h2 = ?n" "min_size h2 = min_size h" "key_size h2 = key_size h"
    "copy_keys h2 = copy_keys h" using fr by (simp_all add: h2_def)
  ultimately show ?thesis
    using res fin(1,3) ent by (intro exI[of _ h2]) simp
qed

lemma remove_correct:
  assumes inv: "hmap_inv h" and k: "key_ok h k"
  shows "\<exists>old h'. hashmap_remove h k = Some (old, h') \<and> hmap_inv h' \<and>
     min_size h' = min_size h \<and> key_size h' = key_size h \<and> copy_keys h' = copy_keys h \<and>
     (if has_key h k
      then has_entry h k old \<and> size_n h' = size_n h - 1 \<and> 0 < size_n h \<and>
           alloc_size h' =
             (if size_n h - 1 < alloc_size h div 4 \<and> min_size h \<le> alloc_size h div 2
              then alloc_size h div 2 else alloc_size h)
      else old = NULL \<and> h' = h) \<and>
     (\<forall>k2 v2. key_ok h k2 \<longrightarrow>
        (has_entry h' k2 v2 \<longleftrightarrow> \<not> key_equals h k2 k \<and> has_entry h k2 v2))"
proof (cases "has_key h k")
  case False
  from inv have cinv: "chain_inv h" and room: "size_n h < alloc_size h"
    by (auto simp: hmap_inv_def MIN_HASHMAP_SIZE_def)
  have "has_entry h k2 v2 \<longleftrightarrow> \<not> key_equals h k2 k \<and> has_entry h k2 v2"
    if k2: "key_ok h k2" for k2 v2
  proof -
    have "\<not> key_equals h k2 k" if e: "has_entry h k2 v2"
    proof
      assume eq: "key_equals h k2 k"
      from e obtain i where i: "i < alloc_size h" "slot_holds h k2 (slot h i)"
        by (auto simp: has_entry_def)
      from holds_key_ok[OF cinv i] obtain ki where ki: "key (slot h i) = Some ki" "key_ok h ki"
        "key_equals h k2 ki" "filled (slot h i)" by blast
      have "key_equals h k ki" using eq ki(2,3) k k2 by (simp add: key_equals_span)
      then have "slot_holds h k (slot h i)" using ki by (simp add: slot_holds_def)
      with i(1) False show False by (auto simp: has_key_def)
    qed
    then show ?thesis by blast
  qed
  then show ?thesis
    using remove_absent[OF cinv room False] False inv by simp
next
  case True
  from inv have cinv: "chain_inv h" and room: "size_n h < alloc_size h"
    and fl: "MIN_HASHMAP_SIZE \<le> min_size h" "min_size h \<le> alloc_size h"
    and load: "size_n h \<le> alloc_size h div 2"
    by (auto simp: hmap_inv_def MIN_HASHMAP_SIZE_def)
  from True obtain r where r: "r < alloc_size h" "slot_holds h k (slot h r)"
    by (auto simp: has_key_def)
  from remove_compacts[OF cinv k room r] obtain h2 where h2:
    "hashmap_remove h k =
            (case (if size_n h2 < alloc_size h2 div 4 then rehash h2 (alloc_size h2 div 2)
                   else Some h2) of
               None \<Rightarrow> None | Some h3 \<Rightarrow> Some (val (slot h r), h3))"
    "chain_inv h2" "alloc_size h2 = alloc_size h" "min_size h2 = min_size h"
    "key_size h2 = key_size h" "copy_keys h2 = copy_keys h"
    "size_n h2 = size_n h - 1" "0 < size_n h"
    "\<And>k2 v2. key_ok h k2 \<Longrightarrow>
              (has_entry h2 k2 v2 \<longleftrightarrow> \<not> key_equals h k2 k \<and> has_entry h k2 v2)"
    by blast
  have old: "has_entry h k (val (slot h r))"
    using r unfolding has_entry_def by (intro bexI[of _ r]) simp_all
  let ?A = "if size_n h - 1 < alloc_size h div 4 \<and> min_size h \<le> alloc_size h div 2
              then alloc_size h div 2 else alloc_size h"
  have "\<exists>h3. (if size_n h2 < alloc_size h2 div 4 then rehash h2 (alloc_size h2 div 2)
                   else Some h2) = Some h3 \<and> chain_inv h3 \<and> alloc_size h3 = ?A \<and>
          min_size h3 = min_size h \<and> key_size h3 = key_size h \<and> copy_keys h3 = copy_keys h \<and>
          size_n h3 = size_n h - 1 \<and>
          (\<forall>k2 v2. key_ok h k2 \<longrightarrow> (has_entry h3 k2 v2 \<longleftrightarrow> has_entry h2 k2 v2))"
  proof (cases "size_n h2 < alloc_size h2 div 4")
    case False
    then show ?thesis using h2(2-7) by simp
  next
    case shrink: True
    show ?thesis
    proof (cases "alloc_size h2 div 2 < min_size h2")
      case True
      then have "rehash h2 (alloc_size h2 div 2) = Some h2" by (simp add: rehash_def)
      then show ?thesis using shrink True h2(2-7) by simp
    next
      case False
      then have fl2: "min_size h2 \<le> alloc_size h2 div 2" by simp
      have room2: "size_n h2 < alloc_size h2 div 2" using shrink by simp
      from rehash_correct[OF h2(2) room2 fl2] obtain h3 where h3:
        "rehash h2 (alloc_size h2 div 2) = Some h3" "chain_inv h3"
        "alloc_size h3 = alloc_size h2 div 2" "min_size h3 = min_size h2"
        "key_size h3 = key_size h2" "copy_keys h3 = copy_keys h2" "size_n h3 = size_n h2"
        "\<And>k2 v2. key_ok h2 k2 \<Longrightarrow> (has_entry h3 k2 v2 \<longleftrightarrow> has_entry h2 k2 v2)"
        by blast
      have "\<forall>k2 v2. key_ok h k2 \<longrightarrow> (has_entry h3 k2 v2 \<longleftrightarrow> has_entry h2 k2 v2)"
        using h3(8) key_size_cong(3)[OF h2(5)] by simp
      then show ?thesis using shrink fl2 h3(1-7) h2(3-7) by simp
    qed
  qed
  then obtain h3 where h3:
    "(if size_n h2 < alloc_size h2 div 4 then rehash h2 (alloc_size h2 div 2)
                   else Some h2) = Some h3" "chain_inv h3" "alloc_size h3 = ?A"
    "min_size h3 = min_size h" "key_size h3 = key_size h" "copy_keys h3 = copy_keys h"
    "size_n h3 = size_n h - 1"
    "\<And>k2 v2. key_ok h k2 \<Longrightarrow> (has_entry h3 k2 v2 \<longleftrightarrow> has_entry h2 k2 v2)"
    by blast
  have res: "hashmap_remove h k = Some (val (slot h r), h3)" using h2(1) h3(1) by simp
  have l3: "size_n h3 \<le> alloc_size h3 div 2"
    using h3(3,7) load by (auto split: if_splits)
  have f3: "min_size h3 \<le> alloc_size h3" using h3(3,4) fl by (auto split: if_splits)
  have i3: "hmap_inv h3"
    unfolding hmap_inv_def using h3(2,4) l3 f3 fl(1) by simp
  have e3: "\<forall>k2 v2. key_ok h k2 \<longrightarrow>
        (has_entry h3 k2 v2 \<longleftrightarrow> \<not> key_equals h k2 k \<and> has_entry h k2 v2)"
    using h3(8) h2(9) by simp
  have o3: "if has_key h k
      then has_entry h k (val (slot h r)) \<and> size_n h3 = size_n h - 1 \<and> 0 < size_n h \<and>
           alloc_size h3 = ?A
      else val (slot h r) = NULL \<and> h3 = h"
    using True old h3(3,7) h2(8) by simp
  show ?thesis
    by (intro exI[of _ "val (slot h r)"] exI[of _ h3] conjI) (rule res i3 h3(4,5,6) o3 e3)+
qed

section \<open>Removal: the claims\<close>


lemma collide_table_inv: "hmap_inv collide_table" "key_size collide_table = 1"
proof -
  let ?t0 = "hashmap_create 8 1 False"
  let ?t1 = "set_in ?t0 [1] 11"
  let ?t2 = "set_in ?t1 [9] 19"
  have k0: "key_size ?t0 = 1" by (simp add: hashmap_create_def)
  have i1: "hmap_inv ?t1" "key_size ?t1 = 1"
    using set_in_inv[OF create_inv, of 8 1 False "[1]" 11] k0 by (simp_all add: key_ok_def)
  have i2: "hmap_inv ?t2" "key_size ?t2 = 1"
    using set_in_inv[OF i1(1), of "[9]" 19] i1(2) by (simp_all add: key_ok_def)
  show "hmap_inv collide_table" "key_size collide_table = 1"
    using set_in_inv[OF i2(1), of "[2]" 12] i2(2) by (simp_all add: key_ok_def collide_table_def)
qed


text \<open>
  C2.  On every table that satisfies the invariant, \<open>hashmap_remove\<close> of a readable key
  returns, and in the table it leaves every filled slot has the probe-chain property: all
  slots from the occupant's desired index up to the slot are filled, and the probe loop
  of the lookup, started at the desired index with the occupant's key and hash, stops at
  the slot.  In particular every key other than the removed one that was present before
  is found afterwards, with its value.
\<close>

theorem remove_keeps_probe_chains:
  assumes "hmap_inv hmap" and "key_ok hmap k"
  shows "\<exists>old hmap'. hashmap_remove hmap k = Some (old, hmap') \<and>
           (\<forall>i\<in>{0..<alloc_size hmap'}. filled (slot hmap' i) \<longrightarrow>
              probe_reaches hmap' i \<and>
              (\<exists>ki. key (slot hmap' i) = Some ki \<and>
                 get_bucket_loop hmap' ki (hash (slot hmap' i)) (desired_idx (slot hmap' i))
                   = Some i)) \<and>
           (\<forall>k2 v2. key_ok hmap k2 \<and> \<not> key_equals hmap k2 k \<and>
                    hashmap_may_get hmap k2 = Some (True, Some v2) \<longrightarrow>
                    hashmap_may_get hmap' k2 = Some (True, Some v2) \<and>
                    hashmap_get hmap' k2 = Some v2)"
proof -
  from assms(1) have cinv: "chain_inv hmap" and room: "size_n hmap < alloc_size hmap"
    by (auto simp: hmap_inv_def MIN_HASHMAP_SIZE_def)
  from remove_correct[OF assms] obtain old h' where h':
    "hashmap_remove hmap k = Some (old, h')" "hmap_inv h'" "key_size h' = key_size hmap"
    "\<And>k2 v2. key_ok hmap k2 \<Longrightarrow>
        (has_entry h' k2 v2 \<longleftrightarrow> \<not> key_equals hmap k2 k \<and> has_entry hmap k2 v2)"
    by blast
  from h'(2) have cinv': "chain_inv h'" by (simp add: hmap_inv_def)
  note keq = key_size_cong[OF h'(3)]
  have chains: "probe_reaches h' i \<and>
              (\<exists>ki. key (slot h' i) = Some ki \<and>
                 get_bucket_loop h' ki (hash (slot h' i)) (desired_idx (slot h' i)) = Some i)"
    if i: "i < alloc_size h'" "filled (slot h' i)" for i
  proof -
    from slot_okD[OF cinv' i] obtain ki where ki: "key (slot h' i) = Some ki" "key_ok h' ki"
      "hash (slot h' i) = hash_key h' ki"
      "desired_idx (slot h' i) = unat (hash_key h' ki) mod alloc_size h'" "probe_reaches h' i"
      by blast
    have "slot_holds h' ki (slot h' i)"
      using i(2) ki(1) key_equals_refl[OF ki(2)] by (simp add: slot_holds_def)
    from lookup_present[OF cinv' ki(2) i(1) this]
    have "get_bucket_loop h' ki (hash (slot h' i)) (desired_idx (slot h' i)) = Some i"
      using ki(3,4) by (simp add: get_bucket_index_def)
    then show ?thesis using ki(1,5) by simp
  qed
  have found: "hashmap_may_get h' k2 = Some (True, Some v2) \<and> hashmap_get h' k2 = Some v2"
    if a: "key_ok hmap k2 \<and> \<not> key_equals hmap k2 k \<and>
           hashmap_may_get hmap k2 = Some (True, Some v2)" for k2 v2
  proof -
    from a have k2: "key_ok hmap k2" and ne: "\<not> key_equals hmap k2 k"
      and g: "hashmap_may_get hmap k2 = Some (True, Some v2)" by simp_all
    from g have "has_entry hmap k2 v2" using may_get_iff[OF cinv k2 room] by simp
    with h'(4)[OF k2] ne have e: "has_entry h' k2 v2" by simp
    have k2': "key_ok h' k2" using k2 keq(3) by simp
    from lookup_has_entry(1,2)[OF cinv' k2' e] show ?thesis by simp
  qed
  show ?thesis
    using h'(1) chains found by (intro exI[of _ old] exI[of _ h']) auto
qed

theorem remove_keeps_probe_chains_witness:
  "hmap_inv collide_table \<and> key_ok collide_table [1] \<and> key_ok collide_table [9] \<and>
   \<not> key_equals collide_table [9] [1] \<and>
   hashmap_may_get collide_table [9] = Some (True, Some 19) \<and>
   (\<exists>old hmap'. hashmap_remove collide_table [1] = Some (old, hmap') \<and>
      (\<forall>i\<in>{0..<alloc_size hmap'}. filled (slot hmap' i) \<longrightarrow> probe_reaches hmap' i) \<and>
      hashmap_may_get hmap' [9] = Some (True, Some 19) \<and> hashmap_get hmap' [9] = Some 19)"
proof -
  have k1: "key_ok collide_table [1]" and k9: "key_ok collide_table [9]"
    using collide_table_inv(2) by (simp_all add: key_ok_def)
  have ne: "\<not> key_equals collide_table [9] [1]"
    using collide_table_inv(2) by (simp add: key_equals_def)
  have g: "hashmap_may_get collide_table [9] = Some (True, Some 19)"
    by (simp add: eval_defs collide_table_def)
  from remove_keeps_probe_chains[OF collide_table_inv(1) k1] k9 ne g
  have "\<exists>old hmap'. hashmap_remove collide_table [1] = Some (old, hmap') \<and>
      (\<forall>i\<in>{0..<alloc_size hmap'}. filled (slot hmap' i) \<longrightarrow> probe_reaches hmap' i) \<and>
      hashmap_may_get hmap' [9] = Some (True, Some 19) \<and> hashmap_get hmap' [9] = Some 19"
    by (elim exE conjE) blast
  then show ?thesis using collide_table_inv(1) k1 k9 ne g by blast
qed



text \<open>
  C8.  On every table that satisfies the invariant, \<open>hashmap_remove\<close> of a readable key
  that is not present returns null and leaves the whole table state as it was: the same
  slots, the same logical count, the same capacity.
\<close>

theorem remove_absent_unchanged:
  assumes "hmap_inv hmap" and "key_ok hmap k" and "hashmap_has hmap k = Some False"
  shows "hashmap_remove hmap k = Some (NULL, hmap)"
proof -
  from assms(1) have cinv: "chain_inv hmap" and room: "size_n hmap < alloc_size hmap"
    by (auto simp: hmap_inv_def MIN_HASHMAP_SIZE_def)
  have "\<not> has_key hmap k" using has_iff[OF cinv assms(2) room] assms(3) by simp
  then show ?thesis by (rule remove_absent[OF cinv room])
qed

theorem remove_absent_unchanged_witness:
  "hmap_inv collide_table \<and> key_ok collide_table [3] \<and> hashmap_has collide_table [3] = Some False \<and>
   hashmap_remove collide_table [3] = Some (NULL, collide_table)"
proof -
  have k3: "key_ok collide_table [3]" using collide_table_inv(2) by (simp add: key_ok_def)
  have a: "hashmap_has collide_table [3] = Some False"
    by (simp add: eval_defs collide_table_def)
  from remove_absent_unchanged[OF collide_table_inv(1) k3 a] collide_table_inv(1) k3 a
  show ?thesis by blast
qed

section \<open>Iteration: the claim\<close>

lemma filter_upt_Cons:
  "filter P [a..<n] = j # js \<Longrightarrow> a \<le> j \<and> j < n \<and> P j \<and> filter P [Suc j..<n] = js"
proof (induction "n - a" arbitrary: a)
  case 0
  then show ?case by simp
next
  case (Suc d)
  then have an: "a < n" by simp
  then have up: "[a..<n] = a # [Suc a..<n]" by (rule upt_conv_Cons)
  show ?case
  proof (cases "P a")
    case True
    then show ?thesis using Suc.prems up an by auto
  next
    case False
    then have "filter P [Suc a..<n] = j # js" using Suc.prems up by simp
    moreover have "d = n - Suc a" using Suc.hyps(2) by simp
    ultimately have "Suc a \<le> j \<and> j < n \<and> P j \<and> filter P [Suc j..<n] = js"
      by (rule Suc.hyps(1)[rotated])
    then show ?thesis by simp
  qed
qed

lemma next_loop_filter:
  "- 1 \<le> i \<Longrightarrow>
     next_loop h i =
       (case filter (\<lambda>j. filled (slot h j)) [nat (i + 1)..<alloc_size h] of
          [] \<Rightarrow> None | j # js \<Rightarrow> Some j)"
proof (induction h i rule: next_loop.induct)
  case (1 hmap i)
  let ?P = "\<lambda>j. filled (slot hmap j)"
  show ?case
  proof (cases "int (alloc_size hmap) \<le> i + 1")
    case True
    then have e1: "[nat (i + 1)..<alloc_size hmap] = []" by simp
    have e2: "next_loop hmap i = None" using True by (subst next_loop.simps) simp
    show ?thesis unfolding e1 e2 by simp
  next
    case False
    with 1(2) have lt: "nat (i + 1) < alloc_size hmap" by simp
    have up: "[nat (i + 1)..<alloc_size hmap] = nat (i + 1) # [Suc (nat (i + 1))..<alloc_size hmap]"
      using lt by (rule upt_conv_Cons)
    have nn: "\<not> (i + 1 < 0 \<or> int (alloc_size hmap) \<le> i + 1)" using False 1(2) by simp
    show ?thesis
    proof (cases "filled (slot hmap (nat (i + 1)))")
      case True
      have e1: "next_loop hmap i = Some (nat (i + 1))"
        using nn True by (subst next_loop.simps) simp
      have e2: "filter ?P [nat (i + 1)..<alloc_size hmap] =
          nat (i + 1) # filter ?P [Suc (nat (i + 1))..<alloc_size hmap]"
        using True by (subst up) simp
      show ?thesis unfolding e1 e2 by simp
    next
      case nf: False
      have s: "nat (i + 1 + 1) = Suc (nat (i + 1))" using 1(2) by simp
      have "- 1 \<le> i + 1" using 1(2) by simp
      from 1(1)[OF nn nf this]
      have ih: "next_loop hmap (i + 1) =
         (case filter ?P [Suc (nat (i + 1))..<alloc_size hmap] of
            [] \<Rightarrow> None | j # js \<Rightarrow> Some j)"
        unfolding s .
      have e1: "next_loop hmap i = next_loop hmap (i + 1)"
        using nn nf by (subst next_loop.simps) simp
      have e2: "filter ?P [nat (i + 1)..<alloc_size hmap] =
          filter ?P [Suc (nat (i + 1))..<alloc_size hmap]"
        using nf by (subst up) simp
      show ?thesis unfolding e1 e2 by (rule ih)
    qed
  qed
qed

lemma advance_n_filter:
  assumes "- 1 \<le> idx iter"
    and "filter (\<lambda>j. filled (slot (hmap_of iter) j))
           [nat (idx iter + 1)..<alloc_size (hmap_of iter)] = js"
  shows "advance_n (length js + 1) iter =
           (map (\<lambda>j. (True, key (slot (hmap_of iter) j), val (slot (hmap_of iter) j))) js
              @ [(False, None, NULL)],
            iter\<lparr>idx := - 1\<rparr>)"
  using assms
proof (induction js arbitrary: iter)
  case Nil
  then have "next_loop (hmap_of iter) (idx iter) = None" by (simp add: next_loop_filter)
  then show ?case by (simp add: hmapiter_next_def)
next
  case (Cons j js)
  let ?h = "hmap_of iter"
  from Cons.prems have nl: "next_loop ?h (idx iter) = Some j" by (simp add: next_loop_filter)
  from filter_upt_Cons[OF Cons.prems(2)]
  have rest: "filter (\<lambda>j. filled (slot ?h j)) [Suc j..<alloc_size ?h] = js" by simp
  let ?it = "iter\<lparr>idx := int j\<rparr>"
  have nx: "hmapiter_next iter = (True, key (slot ?h j), val (slot ?h j), ?it)"
    using nl by (simp add: hmapiter_next_def)
  have "advance_n (length js + 1) ?it =
           (map (\<lambda>j. (True, key (slot (hmap_of ?it) j), val (slot (hmap_of ?it) j))) js
              @ [(False, None, NULL)],
            ?it\<lparr>idx := - 1\<rparr>)"
  proof (rule Cons.IH)
    show "- 1 \<le> idx ?it" by simp
    have "nat (idx ?it + 1) = Suc j" by simp
    then show "filter (\<lambda>j. filled (slot (hmap_of ?it) j))
           [nat (idx ?it + 1)..<alloc_size (hmap_of ?it)] = js"
      using rest by simp
  qed
  then show ?case using nx by simp
qed

lemma filter_nth_upt:
  "map (\<lambda>j. g (xs ! j)) (filter (\<lambda>j. P (xs ! j)) [0..<length xs]) = map g (filter P xs)"
proof -
  have "filter P xs = filter P (map (\<lambda>j. xs ! j) [0..<length xs])" by (simp add: map_nth)
  also have "\<dots> = map (\<lambda>j. xs ! j) (filter (\<lambda>j. P (xs ! j)) [0..<length xs])"
    by (simp add: filter_map comp_def)
  finally show ?thesis by (simp add: comp_def)
qed

lemma filtered_slots_distinct:
  assumes inv: "chain_inv h" and p: "p < length (filter filled (buckets h))"
    and q: "q < length (filter filled (buckets h))" and pq: "p \<noteq> q"
    and kp: "key (filter filled (buckets h) ! p) = Some kp"
  shows "\<not> slot_holds h kp (filter filled (buckets h) ! q)"
proof -
  let ?bs = "buckets h"
  let ?is = "filter (\<lambda>j. filled (?bs ! j)) [0..<length ?bs]"
  have fs: "filter filled ?bs = map (\<lambda>j. ?bs ! j) ?is"
    using filter_nth_upt[of "\<lambda>b. b" ?bs filled] by simp
  have li: "length ?is = length (filter filled ?bs)" by (simp add: fs)
  have d: "distinct ?is" by simp
  have ne: "?is ! p \<noteq> ?is ! q"
    using d p q pq li nth_eq_iff_index_eq[of ?is p q] by simp
  have mem: "\<And>t. t < length ?is \<Longrightarrow> ?is ! t < length ?bs \<and> filled (?bs ! (?is ! t))"
  proof -
    fix t assume "t < length ?is"
    then have "?is ! t \<in> set ?is" by (rule nth_mem)
    then show "?is ! t < length ?bs \<and> filled (?bs ! (?is ! t))" by simp
  qed
  from inv have len: "length ?bs = alloc_size h" by (simp add: chain_inv_def)
  have pl: "p < length ?is" and ql: "q < length ?is" using p q li by simp_all
  have ep: "filter filled ?bs ! p = ?bs ! (?is ! p)" using pl by (subst fs) (rule nth_map)
  have eq: "filter filled ?bs ! q = ?bs ! (?is ! q)" using ql by (subst fs) (rule nth_map)
  have "\<not> slot_holds h kp (?bs ! (?is ! q))"
  proof (rule keys_distinctD[OF inv _ _ ne])
    show "?is ! p < alloc_size h" using mem[OF pl] len by simp
    show "?is ! q < alloc_size h" using mem[OF ql] len by simp
    show "filled (slot h (?is ! p))" using mem[OF pl] by simp
    show "key (slot h (?is ! p)) = Some kp" using kp ep by simp
  qed
  then show ?thesis using eq by simp
qed

text \<open>
  C9.  For a table that satisfies the invariant, holds \<open>N\<close> entries and is not changed
  meanwhile, a reset followed by \<open>N + 1\<close> calls of \<open>hmapiter_next\<close> yields: first the
  \<open>N\<close> filled slots of the slot array, in slot order, each call returning success with
  the key and value of its slot; then one call that returns failure, writes null for key
  and value, and leaves the iterator in the not-started state.  No two of the yielded
  keys are equal.
\<close>

theorem iterate_all:
  assumes "hmap_inv hmap" and "hmap_of iter = hmap"
  shows "length (filter filled (buckets hmap)) = size_n hmap \<and>
         advance_n (size_n hmap + 1) (hmapiter_reset iter) =
           (map (\<lambda>b. (True, key b, val b)) (filter filled (buckets hmap)) @ [(False, None, NULL)],
            hmapiter_reset iter) \<and>
         (\<forall>p\<in>{0..<size_n hmap}. \<forall>q\<in>{0..<size_n hmap}. p \<noteq> q \<longrightarrow>
            (\<exists>kp. key (filter filled (buckets hmap) ! p) = Some kp \<and>
                  \<not> slot_holds hmap kp (filter filled (buckets hmap) ! q)))"
proof -
  from assms(1) have cinv: "chain_inv hmap" by (simp add: hmap_inv_def)
  then have len: "length (buckets hmap) = alloc_size hmap"
    and cnt: "size_n hmap = length (filter filled (buckets hmap))" by (simp_all add: chain_inv_def)
  let ?it = "hmapiter_reset iter"
  let ?js = "filter (\<lambda>j. filled (slot hmap j)) [0..<length (buckets hmap)]"
  have lj: "length ?js = size_n hmap"
    using filter_nth_upt[of "\<lambda>b. b" "buckets hmap" filled] cnt
    by (metis length_map)
  have "advance_n (length ?js + 1) ?it =
           (map (\<lambda>j. (True, key (slot (hmap_of ?it) j), val (slot (hmap_of ?it) j))) ?js
              @ [(False, None, NULL)],
            ?it\<lparr>idx := - 1\<rparr>)"
    by (rule advance_n_filter) (simp_all add: hmapiter_reset_def assms(2) len)
  moreover have "map (\<lambda>j. (True, key (slot hmap j), val (slot hmap j))) ?js =
      map (\<lambda>b. (True, key b, val b)) (filter filled (buckets hmap))"
    by (rule filter_nth_upt)
  ultimately have run: "advance_n (size_n hmap + 1) ?it =
           (map (\<lambda>b. (True, key b, val b)) (filter filled (buckets hmap)) @ [(False, None, NULL)],
            ?it)"
    using lj by (simp add: hmapiter_reset_def assms(2))
  have dis: "\<exists>kp. key (filter filled (buckets hmap) ! p) = Some kp \<and>
                  \<not> slot_holds hmap kp (filter filled (buckets hmap) ! q)"
    if p: "p < size_n hmap" and q: "q < size_n hmap" and pq: "p \<noteq> q" for p q
  proof -
    let ?fs = "filter filled (buckets hmap)"
    have "p < length ?fs" using p cnt by simp
    then have "?fs ! p \<in> set ?fs" by (rule nth_mem)
    then have "?fs ! p \<in> set (buckets hmap)" "filled (?fs ! p)" by simp_all
    then obtain i where i: "i < alloc_size hmap" "slot hmap i = ?fs ! p"
      using len by (auto simp: in_set_conv_nth)
    from slot_okD[OF cinv i(1)] i(2) \<open>filled (?fs ! p)\<close>
    obtain kp where kp: "key (?fs ! p) = Some kp" by auto
    from filtered_slots_distinct[OF cinv _ _ pq kp] p q cnt
    show ?thesis using kp by simp
  qed
  show ?thesis using cnt run dis by simp
qed

theorem iterate_all_witness:
  "hmap_inv collide_table \<and>
   advance_n 4 (hmapiter_reset (hmapiter_create collide_table)) =
     ([(True, Some [1], 11), (True, Some [9], 19), (True, Some [2], 12), (False, None, NULL)],
      hmapiter_reset (hmapiter_create collide_table))"
proof -
  have h: "hmap_of (hmapiter_create collide_table) = collide_table"
    by (simp add: hmapiter_create_def)
  have s: "size_n collide_table = 3"
    "filter filled (buckets collide_table) =
       [\<lparr>filled = True, desired_idx = 4, hash = hash_key collide_table [1], key = Some [1],
          val = 11\<rparr>,
        \<lparr>filled = True, desired_idx = 4, hash = hash_key collide_table [9], key = Some [9],
          val = 19\<rparr>,
        \<lparr>filled = True, desired_idx = 5, hash = hash_key collide_table [2], key = Some [2],
          val = 12\<rparr>]"
    by (simp_all add: eval_defs collide_table_def)
  from iterate_all[OF collide_table_inv(1) h] s collide_table_inv(1)
  show ?thesis by simp
qed

section \<open>Capacity and key ownership: the claims\<close>

lemma power_of_two_iff: "power_of_two n \<longleftrightarrow> (\<exists>e. n = 2 ^ e)"
proof (induction n rule: power_of_two.induct)
  case (1 n)
  show ?case
  proof (cases "n \<le> 1")
    case True
    have "n = 1 \<longleftrightarrow> (\<exists>e. n = 2 ^ e)"
    proof
      assume "n = 1"
      then have "n = 2 ^ 0" by simp
      then show "\<exists>e. n = 2 ^ e" by blast
    next
      assume "\<exists>e. n = 2 ^ e"
      then obtain e where e: "n = 2 ^ e" by blast
      then have "0 < n" by simp
      with True show "n = 1" by simp
    qed
    then show ?thesis using True by (subst power_of_two.simps) simp
  next
    case False
    have step: "power_of_two n \<longleftrightarrow> even n \<and> power_of_two (n div 2)"
      using False by (subst power_of_two.simps) simp
    have "even n \<and> (\<exists>e. n div 2 = 2 ^ e) \<longleftrightarrow> (\<exists>e. n = 2 ^ e)"
    proof
      assume "even n \<and> (\<exists>e. n div 2 = 2 ^ e)"
      then obtain e where "even n" "n div 2 = 2 ^ e" by blast
      then have "n = 2 ^ Suc e" by auto
      then show "\<exists>e. n = 2 ^ e" by blast
    next
      assume "\<exists>e. n = 2 ^ e"
      then obtain e where e: "n = 2 ^ e" by blast
      have "e \<noteq> 0" using e False by (cases e) auto
      then obtain e' where e': "e = Suc e'" by (cases e) auto
      then have "even n" "n div 2 = 2 ^ e'" using e by simp_all
      then show "even n \<and> (\<exists>e. n div 2 = 2 ^ e)" by blast
    qed
    then show ?thesis using step 1[OF False] by simp
  qed
qed

lemma reachable_inv: "reachable initial_size ksz ck h \<Longrightarrow> hmap_inv h"
proof (induction rule: reachable.induct)
  case created
  show ?case by (rule create_inv)
next
  case (after_set hmap k v old hmap')
  from set_correct[OF after_set.IH after_set.hyps(2), of v] after_set.hyps(3)
  show ?case by auto
next
  case (after_remove hmap k old hmap')
  from remove_correct[OF after_remove.IH after_remove.hyps(2)] after_remove.hyps(3)
  show ?case by auto
qed

lemma reachable_capacity:
  "reachable initial_size ksz ck h \<Longrightarrow>
     min_size h = max initial_size MIN_HASHMAP_SIZE \<and> (\<exists>e. alloc_size h = min_size h * 2 ^ e)"
proof (induction rule: reachable.induct)
  case created
  have "alloc_size (hashmap_create initial_size ksz ck) =
          min_size (hashmap_create initial_size ksz ck) * 2 ^ 0"
    by (simp add: hashmap_create_def)
  then show ?case by (auto simp: hashmap_create_def simp del: power_0)
next
  case (after_set hmap k v old hmap')
  from after_set.IH obtain e where e: "alloc_size hmap = min_size hmap * 2 ^ e"
    and m: "min_size hmap = max initial_size MIN_HASHMAP_SIZE" by blast
  from set_correct[OF reachable_inv[OF after_set.hyps(1)] after_set.hyps(2), of v]
    after_set.hyps(3)
  have a: "alloc_size hmap' =
      (if alloc_size hmap div 2 \<le> size_n hmap then alloc_size hmap * 2 else alloc_size hmap)"
    and m': "min_size hmap' = min_size hmap" by auto
  have "\<exists>e'. alloc_size hmap' = min_size hmap' * 2 ^ e'"
  proof (cases "alloc_size hmap div 2 \<le> size_n hmap")
    case True
    then have "alloc_size hmap' = min_size hmap' * 2 ^ Suc e" using a e m' by simp
    then show ?thesis by blast
  next
    case False
    then have "alloc_size hmap' = min_size hmap' * 2 ^ e" using a e m' by simp
    then show ?thesis by blast
  qed
  then show ?case using m m' by simp
next
  case (after_remove hmap k old hmap')
  from after_remove.IH obtain e where e: "alloc_size hmap = min_size hmap * 2 ^ e"
    and m: "min_size hmap = max initial_size MIN_HASHMAP_SIZE" by blast
  note inv = reachable_inv[OF after_remove.hyps(1)]
  from inv have pos: "0 < min_size hmap" by (simp add: hmap_inv_def MIN_HASHMAP_SIZE_def)
  from remove_correct[OF inv after_remove.hyps(2)] after_remove.hyps(3)
  have m': "min_size hmap' = min_size hmap"
    and a: "if has_key hmap k
      then alloc_size hmap' =
             (if size_n hmap - 1 < alloc_size hmap div 4 \<and> min_size hmap \<le> alloc_size hmap div 2
              then alloc_size hmap div 2 else alloc_size hmap)
      else hmap' = hmap"
    by (auto split: if_splits)
  have "\<exists>e'. alloc_size hmap' = min_size hmap' * 2 ^ e'"
  proof (cases "has_key hmap k \<and> size_n hmap - 1 < alloc_size hmap div 4 \<and>
                min_size hmap \<le> alloc_size hmap div 2")
    case True
    then have half: "alloc_size hmap' = alloc_size hmap div 2"
      and fl: "min_size hmap \<le> alloc_size hmap div 2" using a by simp_all
    have "e \<noteq> 0"
    proof
      assume "e = 0"
      then have "alloc_size hmap div 2 < min_size hmap" using e pos by simp
      with fl show False by simp
    qed
    then obtain e' where e': "e = Suc e'" by (cases e) auto
    have "alloc_size hmap div 2 = min_size hmap * 2 ^ e'" using e e' by simp
    then show ?thesis using half m' by auto
  next
    case False
    then have "alloc_size hmap' = alloc_size hmap" using a by (auto split: if_splits)
    then show ?thesis using e m' by auto
  qed
  then show ?case using m m' by simp
qed

text \<open>
  C4, as the code has it.  In every reachable table state, for any initial capacity hint,
  the minimum capacity is the larger of 8 and the requested initial size; the allocated
  capacity is the minimum capacity times a power of two, so it is at least the minimum
  capacity, and it is a power of two whenever the minimum capacity is one (the hint is
  not rounded up to a power of two); and the logical entry count never exceeds the
  allocated capacity.
\<close>

theorem reachable_capacity_bounds:
  assumes "reachable initial_size ksz ck hmap"
  shows "min_size hmap = max initial_size 8 \<and>
         (\<exists>e. alloc_size hmap = min_size hmap * 2 ^ e) \<and>
         min_size hmap \<le> alloc_size hmap \<and>
         (power_of_two (max initial_size 8) \<longrightarrow> power_of_two (alloc_size hmap)) \<and>
         size_n hmap \<le> alloc_size hmap"
proof -
  from reachable_capacity[OF assms] obtain e where m: "min_size hmap = max initial_size 8"
    and e: "alloc_size hmap = min_size hmap * 2 ^ e" by (auto simp: MIN_HASHMAP_SIZE_def)
  from reachable_inv[OF assms] have fl: "min_size hmap \<le> alloc_size hmap"
    and "size_n hmap \<le> alloc_size hmap div 2" by (simp_all add: hmap_inv_def)
  then have sz: "size_n hmap \<le> alloc_size hmap" by simp
  have "power_of_two (alloc_size hmap)" if "power_of_two (max initial_size 8)"
  proof -
    from that obtain a where "max initial_size 8 = 2 ^ a" by (auto simp: power_of_two_iff)
    then have "alloc_size hmap = 2 ^ (a + e)" using e m by (simp add: power_add)
    then show ?thesis unfolding power_of_two_iff by blast
  qed
  then show ?thesis using m e fl sz by blast
qed

theorem reachable_capacity_bounds_witness:
  "reachable 12 1 False (set_in (hashmap_create 12 1 False) [1] 11) \<and>
   min_size (set_in (hashmap_create 12 1 False) [1] 11) = 12 \<and>
   12 \<le> alloc_size (set_in (hashmap_create 12 1 False) [1] 11) \<and>
   size_n (set_in (hashmap_create 12 1 False) [1] 11)
     \<le> alloc_size (set_in (hashmap_create 12 1 False) [1] 11)"
proof -
  have k: "key_ok (hashmap_create 12 1 False) [1]" by (simp add: key_ok_def hashmap_create_def)
  from set_correct[OF create_inv k, of 11] obtain old h' where
    s: "hashmap_set (hashmap_create 12 1 False) [1] 11 = Some (old, h')" by blast
  then have t: "set_in (hashmap_create 12 1 False) [1] 11 = h'" by (simp add: set_in_def)
  have r: "reachable 12 1 False (set_in (hashmap_create 12 1 False) [1] 11)"
    unfolding t using reachable.created k s by (rule reachable.after_set)
  from reachable_capacity_bounds[OF r] r show ?thesis by simp
qed

text \<open>
  The claim C4 as stated fails for the initial capacity hint 12: the table that
  \<open>hashmap_create\<close> returns has the capacity 12, which is not a power of two.
\<close>

theorem capacity_power_of_two_counterexample:
  "alloc_size (hashmap_create 12 1 False) = 12 \<and>
   \<not> power_of_two (alloc_size (hashmap_create 12 1 False))"
  by (simp add: hashmap_create_def MIN_HASHMAP_SIZE_def power_of_two.simps)

text \<open>
  C10 fails on the code.  In copy-keys mode, after the key "a" is set and removed on a
  fresh table, the table is empty, yet the vacated slot still has the key pointer that
  \<open>hashmap_remove\<close> passed to \<open>free\<close>, and the key-freeing pass of \<open>hashmap_destroy\<close>
  hands that pointer to \<open>free\<close> again.  After a removal that shifts slots (the keys 1
  and 9 collide, 2 follows), the vacated slot keeps the key pointer of the occupant that
  was shifted backward, so the pass frees the key 2 twice.
\<close>

theorem vacated_slot_keeps_key:
  "size_n (remove_in (set_in (hashmap_create 8 (- 1) True) [97, 0] 11) [97, 0]) = 0 \<and>
   filter filled (buckets (remove_in (set_in (hashmap_create 8 (- 1) True) [97, 0] 11) [97, 0]))
     = [] \<and>
   hashmap_destroy_keys (remove_in (set_in (hashmap_create 8 (- 1) True) [97, 0] 11) [97, 0])
     = [Some [97, 0]] \<and>
   hashmap_destroy_keys
     (remove_in (set_in (set_in (set_in (hashmap_create 8 1 True) [1] 11) [9] 19) [2] 12) [1])
     = [Some [9], Some [2], Some [2]]"
  by (simp add: eval_defs hashmap_destroy_keys_def)

end
